theory Spec2Isabelle
  imports Main "HOL-Library.Word" "HOL-Library.Sublist"
begin

unbundle bit_operations_syntax

section \<open>Python values used by the two modules\<close>

text \<open>
  Byte strings are lists of 8-bit words, Python integers are \<open>int\<close> (or \<open>nat\<close> where the
  source can only produce a non-negative value), and every exception the source can raise is a
  value of \<open>error\<close>, returned as \<open>Inl\<close>. The model follows the Python 3 branch of the source
  (\<open>byte_cls = bytes\<close>, \<open>int_types = int\<close>); the \<open>isinstance\<close> checks are carried by the types.
\<close>

type_synonym byte = "8 word"
type_synonym bytes = "byte list"

datatype error = ValueError | TypeError | OverflowError | StructError | KeyError | ZeroDivisionError

subsection \<open>Slices\<close>

definition slice :: "'a list \<Rightarrow> int \<Rightarrow> int \<Rightarrow> 'a list" where
  \<comment> \<open>\<open>xs[i:j]\<close>: a negative index counts from the end, an index out of range is clipped.\<close>
  "slice xs i j =
     (let n = int (length xs);
          lo = (if i < 0 then max 0 (n + i) else min i n);
          hi = (if j < 0 then max 0 (n + j) else min j n)
      in take (nat (hi - lo)) (drop (nat lo) xs))"

definition slice_from :: "'a list \<Rightarrow> int \<Rightarrow> 'a list" where
  \<comment> \<open>\<open>xs[i:]\<close>\<close>
  "slice_from xs i =
     (let n = int (length xs);
          lo = (if i < 0 then max 0 (n + i) else min i n)
      in drop (nat lo) xs)"

definition bytes_times :: "byte \<Rightarrow> int \<Rightarrow> bytes" where
  \<comment> \<open>\<open>b'\<dots>' * n\<close> for a one-byte string: empty when \<open>n \<le> 0\<close>.\<close>
  "bytes_times b n = replicate (nat n) b"

definition ord_byte :: "bytes \<Rightarrow> error + nat" where
  \<comment> \<open>\<open>ord\<close> of a byte string: defined on length 1 only.\<close>
  "ord_byte s = (case s of [b] \<Rightarrow> Inr (unat b) | _ \<Rightarrow> Inl TypeError)"

definition chr_cls :: "nat \<Rightarrow> bytes" where
  \<comment> \<open>\<open>bytes([num])\<close>. It raises outside \<open>0..255\<close>; both call sites pass
      \<open>mask & ord(byte)\<close>, which is at most the byte.\<close>
  "chr_cls num = [of_nat num]"

subsection \<open>True division followed by \<open>math.ceil\<close>\<close>

text \<open>
  Both modules import \<open>division\<close> from \<open>__future__\<close>, so \<open>a / b\<close> on integers is the double
  nearest to the quotient (ties to even), and \<open>OverflowError\<close> when that double would be
  \<open>2 ^ 1024\<close> or more. \<open>math.ceil\<close> and \<open>int\<close> are then exact. \<open>truediv_round n d\<close> is the
  mantissa and the exponent of that double, for \<open>n, d > 0\<close>.
\<close>

fun bit_length :: "nat \<Rightarrow> nat" where
  "bit_length n = (if n = 0 then 0 else Suc (bit_length (n div 2)))"

declare bit_length.simps [simp del]

definition scaled_divmod :: "nat \<Rightarrow> nat \<Rightarrow> int \<Rightarrow> nat \<times> nat \<times> nat" where
  \<comment> \<open>quotient, remainder and denominator of \<open>n / (d * 2 ^ e)\<close>, cleared of fractions\<close>
  "scaled_divmod n d e =
     (let num = (if 0 \<le> e then n else n * 2 ^ nat (- e));
          den = (if 0 \<le> e then d * 2 ^ nat e else d)
      in (num div den, num mod den, den))"

definition truediv_round :: "nat \<Rightarrow> nat \<Rightarrow> nat \<times> int" where
  "truediv_round n d =
     (let e0 = int (bit_length n) - int (bit_length d) - 53;
          e = max (if 2 ^ 53 \<le> fst (scaled_divmod n d e0) then e0 + 1 else e0) (- 1074)
      in case scaled_divmod n d e of
           (q, r, den) \<Rightarrow>
             (if den < 2 * r \<or> (2 * r = den \<and> odd q) then q + 1 else q, e))"

definition ceil_truediv :: "int \<Rightarrow> int \<Rightarrow> error + int" where
  \<comment> \<open>\<open>int(math.ceil(a / b))\<close> for a divisor \<open>b \<ge> 0\<close> (the source divides by 8 and by a
      digest length).\<close>
  "ceil_truediv a b =
     (if b = 0 then Inl ZeroDivisionError
      else if a = 0 then Inr 0
      else case truediv_round (nat \<bar>a\<bar>) (nat b) of
        (m, e) \<Rightarrow>
          if 0 \<le> e \<and> 2 ^ 1024 \<le> m * 2 ^ nat e then Inl OverflowError
          else if 0 \<le> e then Inr (sgn a * int (m * 2 ^ nat e))
          else if 0 < a then Inr (- ((- int m) div 2 ^ nat (- e)))
          else Inr (- (int m div 2 ^ nat (- e))))"

subsection \<open>Integers and byte strings\<close>

definition int_from_bytes :: "bytes \<Rightarrow> nat" where
  \<comment> \<open>Modelled from the spec: \<open>_int.int_from_bytes\<close> is not among the sources
      (\<open>asn1crypto.util.int_from_bytes\<close>, which \<open>_tls.py\<close> imports, is a library function).
      The spec reads a byte string as a big-endian integer; both are
      \<open>int.from_bytes(value, 'big')\<close>, unsigned, and the empty string is 0.\<close>
  "int_from_bytes value = foldl (\<lambda>acc b. acc * 256 + unat b) 0 value"

fun int_to_bytes :: "nat \<Rightarrow> bytes" where
  \<comment> \<open>Modelled from the spec: \<open>_int.int_to_bytes\<close> is not among the sources. The spec calls the
      step an arbitrary-precision XOR followed by a re-pad: the unsigned big-endian encoding
      of the value without leading zero bytes.\<close>
  "int_to_bytes n = (if n = 0 then [] else int_to_bytes (n div 256) @ [of_nat (n mod 256)])"

declare int_to_bytes.simps [simp del]

definition fill_width :: "bytes \<Rightarrow> nat \<Rightarrow> bytes" where
  \<comment> \<open>Modelled from the spec: \<open>_int.fill_width\<close> is not among the sources. It left-pads a byte
      string with zero bytes up to the width (the re-pad of the spec's design notes).\<close>
  "fill_width bs width = replicate (width - length bs) 0 @ bs"

definition constant_compare :: "bytes \<Rightarrow> bytes \<Rightarrow> bool" where
  \<comment> \<open>Modelled from the spec: \<open>util.constant_compare\<close> is not among the sources. The spec gives
      it as \<open>(bytes, bytes) -> bool\<close>, an equality test that does not short-circuit: the XOR of
      every pair of bytes is accumulated with OR.\<close>
  "constant_compare a b =
     (if length a \<noteq> length b then False
      else foldl (\<lambda>result (x, y). result OR (x XOR y)) 0 (zip a b) = 0)"

definition int_base2 :: "string \<Rightarrow> error + nat" where
  \<comment> \<open>\<open>int(s, 2)\<close> on a string of binary digits.\<close>
  "int_base2 s =
     (if s \<noteq> [] \<and> list_all (\<lambda>c. c = CHR ''0'' \<or> c = CHR ''1'') s
      then Inr (foldl (\<lambda>acc c. 2 * acc + (if c = CHR ''1'' then 1 else 0)) 0 s)
      else Inl ValueError)"

definition pack_I :: "nat \<Rightarrow> error + bytes" where
  \<comment> \<open>\<open>struct.Struct(b'>I').pack\<close>: four bytes, big-endian; \<open>struct.error\<close> from \<open>2 ^ 32\<close> on.\<close>
  "pack_I n =
     (if n < 2 ^ 32
      then Inr [of_nat (n div 2 ^ 24), of_nat (n div 2 ^ 16), of_nat (n div 2 ^ 8), of_nat n]
      else Inl StructError)"

section \<open>\<open>_pkcs1.py\<close>\<close>

text \<open>
  \<open>hashlib\<close> is a parameter: \<open>hashlib name data\<close> is \<open>getattr(hashlib, name)(data).digest()\<close>.
  \<open>urandom\<close> is \<open>os.urandom\<close>, a parameter as well.
\<close>

definition supported_hashes :: "string list" where
  "supported_hashes = [''sha1'', ''sha224'', ''sha256'', ''sha384'', ''sha512'']"

definition hash_length_table :: "string \<rightharpoonup> int" where
  "hash_length_table =
     map_of [(''sha1'', 20), (''sha224'', 28), (''sha256'', 32), (''sha384'', 48), (''sha512'', 64)]"

fun mgf1_loop :: "(bytes \<Rightarrow> bytes) \<Rightarrow> bytes \<Rightarrow> nat list \<Rightarrow> bytes \<Rightarrow> error + bytes" where
  \<comment> \<open>the body of \<open>for counter in range(0, iterations)\<close>, over the remaining counters\<close>
  "mgf1_loop hash_func seed [] output = Inr output"
| "mgf1_loop hash_func seed (counter # rest) output =
     (case pack_I counter of
        Inl err \<Rightarrow> Inl err
      | Inr b \<Rightarrow> mgf1_loop hash_func seed rest (output @ hash_func (seed @ b)))"

definition mgf1 :: "(string \<Rightarrow> bytes \<Rightarrow> bytes) \<Rightarrow> string \<Rightarrow> bytes \<Rightarrow> int \<Rightarrow> error + bytes" where
  "mgf1 hashlib hash_algorithm seed mask_length =
     (if mask_length < 1 then Inl ValueError
      else if hash_algorithm \<notin> set supported_hashes then Inl ValueError
      else case hash_length_table hash_algorithm of
        None \<Rightarrow> Inl KeyError
      | Some hash_length \<Rightarrow>
          (case ceil_truediv mask_length hash_length of
             Inl err \<Rightarrow> Inl err
           | Inr iterations \<Rightarrow>
               (case mgf1_loop (hashlib hash_algorithm) seed [0..<nat iterations] [] of
                  Inl err \<Rightarrow> Inl err
                | Inr output \<Rightarrow> Inr (slice output 0 mask_length))))"

definition left_bit_mask :: "int \<Rightarrow> string" where
  \<comment> \<open>\<open>('0' * zero_bits) + ('1' * (8 - zero_bits))\<close>\<close>
  "left_bit_mask zero_bits =
     replicate (nat zero_bits) CHR ''0'' @ replicate (nat (8 - zero_bits)) CHR ''1''"

definition mask_first_byte :: "nat \<Rightarrow> bytes \<Rightarrow> error + bytes" where
  \<comment> \<open>\<open>chr_cls(left_int_mask & ord(s[0:1])) + s[1:]\<close> when the mask is not 255\<close>
  "mask_first_byte left_int_mask s =
     (if left_int_mask \<noteq> 255
      then (case ord_byte (slice s 0 1) of
              Inl err \<Rightarrow> Inl err
            | Inr first \<Rightarrow> Inr (chr_cls (left_int_mask AND first) @ slice_from s 1))
      else Inr s)"

definition add_pss_padding ::
  "(string \<Rightarrow> bytes \<Rightarrow> bytes) \<Rightarrow> (int \<Rightarrow> bytes) \<Rightarrow> string \<Rightarrow> int \<Rightarrow> int \<Rightarrow> bytes \<Rightarrow> error + bytes"
where
  "add_pss_padding hashlib urandom hash_algorithm salt_length key_length message =
     (if salt_length < 0 then Inl ValueError
      else if key_length < 512 then Inl ValueError
      else if hash_algorithm \<notin> set supported_hashes then Inl ValueError
      else
        let hash_func = hashlib hash_algorithm;
            em_bits = key_length - 1
        in case ceil_truediv em_bits 8 of
          Inl err \<Rightarrow> Inl err
        | Inr em_len \<Rightarrow>
            let message_digest = hash_func message;
                hash_length = int (length message_digest)
            in if em_len < hash_length + salt_length + 2 then Inl ValueError
               else
                 let salt = (if 0 < salt_length then urandom salt_length else []);
                     m_prime = bytes_times 0 8 @ message_digest @ salt;
                     m_prime_digest = hash_func m_prime;
                     padding = bytes_times 0 (em_len - salt_length - hash_length - 2);
                     db = padding @ [1] @ salt
                 in case mgf1 hashlib hash_algorithm m_prime_digest (em_len - hash_length - 1) of
                   Inl err \<Rightarrow> Inl err
                 | Inr db_mask \<Rightarrow>
                     let masked_db = int_to_bytes (int_from_bytes db XOR int_from_bytes db_mask);
                         masked_db = fill_width masked_db (length db_mask);
                         zero_bits = 8 * em_len - em_bits
                     in case int_base2 (left_bit_mask zero_bits) of
                       Inl err \<Rightarrow> Inl err
                     | Inr left_int_mask \<Rightarrow>
                         (case mask_first_byte left_int_mask masked_db of
                            Inl err \<Rightarrow> Inl err
                          | Inr masked_db \<Rightarrow> Inr (masked_db @ m_prime_digest @ [0xBC])))"

definition recover_db ::
  "(string \<Rightarrow> bytes \<Rightarrow> bytes) \<Rightarrow> string \<Rightarrow> int \<Rightarrow> int \<Rightarrow> int \<Rightarrow> bytes \<Rightarrow> bytes \<Rightarrow> error + bytes"
where
  \<comment> \<open>Lines 174 to 184 of \<open>verify_pss_padding\<close>: the data block, from the values of
      \<open>em_len\<close>, \<open>hash_length\<close>, \<open>zero_bits\<close>, \<open>masked_db\<close> and \<open>m_prime_digest\<close> at line 172.\<close>
  "recover_db hashlib hash_algorithm em_len hash_length zero_bits masked_db m_prime_digest =
     (case mgf1 hashlib hash_algorithm m_prime_digest (em_len - hash_length - 1) of
        Inl err \<Rightarrow> Inl err
      | Inr db_mask \<Rightarrow>
          (case int_base2 (left_bit_mask zero_bits) of
             Inl err \<Rightarrow> Inl err
           | Inr left_int_mask \<Rightarrow>
               (case mask_first_byte left_int_mask db_mask of
                  Inl err \<Rightarrow> Inl err
                | Inr db_mask \<Rightarrow>
                    let db = int_to_bytes (int_from_bytes masked_db XOR int_from_bytes db_mask)
                    in Inr (if length db < length masked_db
                            then bytes_times 0 (int (length masked_db) - int (length db)) @ db
                            else db))))"

definition shift_right :: "nat \<Rightarrow> int \<Rightarrow> error + nat" where
  \<comment> \<open>\<open>x >> n\<close>: a negative shift count raises \<open>ValueError\<close>.\<close>
  "shift_right x n = (if n < 0 then Inl ValueError else Inr (drop_bit (nat n) x))"

definition verify_pss_padding ::
  "(string \<Rightarrow> bytes \<Rightarrow> bytes) \<Rightarrow> string \<Rightarrow> int \<Rightarrow> int \<Rightarrow> bytes \<Rightarrow> bytes \<Rightarrow> error + bool"
where
  "verify_pss_padding hashlib hash_algorithm salt_length key_length message signature =
     (if salt_length < 0 then Inl ValueError
      else if hash_algorithm \<notin> set supported_hashes then Inl ValueError
      else
        let hash_func = hashlib hash_algorithm;
            em_bits = key_length - 1
        in case ceil_truediv em_bits 8 of
          Inl err \<Rightarrow> Inl err
        | Inr em_len \<Rightarrow>
            let message_digest = hash_func message;
                hash_length = int (length message_digest)
            in if em_len < hash_length + salt_length + 2 then Inr False
               else if slice_from signature (- 1) \<noteq> [0xBC] then Inr False
               else
                 let zero_bits = 8 * em_len - em_bits;
                     masked_db_length = em_len - hash_length - 1;
                     masked_db = slice signature 0 masked_db_length
                 in case ord_byte (slice masked_db 0 1) of
                   Inl err \<Rightarrow> Inl err
                 | Inr first_byte \<Rightarrow>
                     (case shift_right first_byte (8 - zero_bits) of
                        Inl err \<Rightarrow> Inl err
                      | Inr bits_that_should_be_zero \<Rightarrow>
                          if bits_that_should_be_zero \<noteq> 0 then Inr False
                          else
                            let m_prime_digest =
                                  slice signature masked_db_length (masked_db_length + hash_length)
                            in case recover_db hashlib hash_algorithm em_len hash_length zero_bits
                                      masked_db m_prime_digest of
                              Inl err \<Rightarrow> Inl err
                            | Inr db \<Rightarrow>
                                let zero_length = em_len - hash_length - salt_length - 2;
                                    zero_string = bytes_times 0 zero_length
                                in if \<not> constant_compare (slice db 0 zero_length) zero_string
                                   then Inr False
                                   else if slice db zero_length (zero_length + 1) \<noteq> [1]
                                   then Inr False
                                   else
                                     let salt = slice_from db (0 - salt_length);
                                         m_prime = bytes_times 0 8 @ message_digest @ salt;
                                         h_prime = hash_func m_prime
                                     in Inr (constant_compare m_prime_digest h_prime)))"

subsection \<open>The mask of section 4.1 of the specification\<close>

text \<open>
  The specification gives the mask as the leading bytes of the concatenation of
  \<open>Hash(seed || BE32(counter))\<close> for the counters from 0 on, \<open>BE32\<close> being the four-byte
  big-endian encoding. \<open>mgf1_blocks\<close> is that concatenation over the first \<open>k\<close> counters;
  \<open>mgf1\<close> is compared with it below. \<open>xor_bytes\<close> is the byte-wise XOR of the specification.
\<close>

definition BE32 :: "nat \<Rightarrow> bytes" where
  "BE32 n = [of_nat (n div 2 ^ 24), of_nat (n div 2 ^ 16), of_nat (n div 2 ^ 8), of_nat n]"

definition mgf1_blocks :: "(string \<Rightarrow> bytes \<Rightarrow> bytes) \<Rightarrow> string \<Rightarrow> bytes \<Rightarrow> nat \<Rightarrow> bytes" where
  "mgf1_blocks hashlib hash_algorithm seed k =
     concat (map (\<lambda>counter. hashlib hash_algorithm (seed @ BE32 counter)) [0..<k])"

definition xor_bytes :: "bytes \<Rightarrow> bytes \<Rightarrow> bytes" where
  "xor_bytes a b = map2 (XOR) a b"

definition clear_top_bits :: "int \<Rightarrow> bytes \<Rightarrow> bytes" where
  \<comment> \<open>the byte string with the top \<open>zero_bits\<close> bits of its first byte set to zero\<close>
  "clear_top_bits zero_bits s =
     (case s of [] \<Rightarrow> [] | b # rest \<Rightarrow> take_bit (nat (8 - zero_bits)) b # rest)"

section \<open>\<open>_tls.py\<close>\<close>

text \<open>
  \<open>extract_chain\<close> and \<open>get_dh_params_length\<close> contain the same record loop, once with the
  sub-type \<open>b'\x0b'\<close> and once with \<open>b'\x0c'\<close>. \<open>scan_records\<close> is that loop from a given
  pointer on, with the sub-type as a parameter; its result is \<open>message_bytes\<close> when the loop
  leaves through \<open>break\<close> (\<open>found = True\<close>) and \<open>None\<close> when it runs off the buffer.
\<close>

function scan_records :: "bytes \<Rightarrow> bytes \<Rightarrow> int \<Rightarrow> bytes option" where
  "scan_records wanted server_handshake_bytes pointer =
     (if pointer < int (length server_handshake_bytes)
      then
        let record_header = slice server_handshake_bytes pointer (pointer + 5);
            record_type = slice record_header 0 1;
            record_length = int (int_from_bytes (slice_from record_header 3));
            sub_type = slice server_handshake_bytes (pointer + 5) (pointer + 6)
        in if record_type = [0x16] \<and> sub_type = wanted
           then Some (slice server_handshake_bytes (pointer + 5) (pointer + 5 + record_length))
           else scan_records wanted server_handshake_bytes (pointer + 5 + record_length)
      else None)"
  by pat_completeness auto
termination
  by (relation "measure (\<lambda>(wanted, buf, pointer). nat (int (length buf) - pointer))") auto

declare scan_records.simps [simp del]

text \<open>
  \<open>Certificate.load\<close> belongs to \<open>asn1crypto\<close>; it is the parameter \<open>load\<close>, which may raise.
\<close>

function cert_loop :: "(bytes \<Rightarrow> error + 'c) \<Rightarrow> bytes \<Rightarrow> int \<Rightarrow> 'c list \<Rightarrow> error + 'c list" where
  "cert_loop load message_bytes pointer output =
     (if pointer < int (length message_bytes)
      then
        let cert_length = int (int_from_bytes (slice message_bytes pointer (pointer + 3)));
            cert_start = pointer + 3;
            cert_end = cert_start + cert_length;
            cert_bytes = slice message_bytes cert_start cert_end
        in case load cert_bytes of
             Inl err \<Rightarrow> Inl err
           | Inr cert \<Rightarrow> cert_loop load message_bytes cert_end (output @ [cert])
      else Inr output)"
  by pat_completeness auto
termination
  by (relation "measure (\<lambda>(load, buf, pointer, output). nat (int (length buf) - pointer))") auto

declare cert_loop.simps [simp del]

definition extract_chain :: "(bytes \<Rightarrow> error + 'c) \<Rightarrow> bytes \<Rightarrow> error + 'c list" where
  "extract_chain load server_handshake_bytes =
     (case scan_records [0x0b] server_handshake_bytes 0 of
        None \<Rightarrow> Inr []
      | Some message_bytes \<Rightarrow> cert_loop load message_bytes 7 [])"

definition get_dh_params_length :: "bytes \<Rightarrow> nat option" where
  "get_dh_params_length server_handshake_bytes =
     (case scan_records [0x0c] server_handshake_bytes 0 of
        None \<Rightarrow> None
      | Some message_bytes \<Rightarrow> Some (int_from_bytes (slice message_bytes 4 6) * 8))"

subsection \<open>The walk of section 4.4 of the specification\<close>

text \<open>
  The scanners are compared with the walk the specification describes: a buffer is a sequence
  of records, each a five-byte header followed by as many bytes as its length field says.
  \<open>record_length_at\<close> is the length field of the header at a position, \<open>record_matches\<close> says
  that the header's type byte is \<open>0x16\<close> and the byte after the header is the wanted sub-type,
  and \<open>record_starts\<close> lists the positions of the walk from a position on.
\<close>

definition record_length_at :: "bytes \<Rightarrow> int \<Rightarrow> int" where
  "record_length_at buf p = int (int_from_bytes (slice buf (p + 3) (p + 5)))"

definition record_matches :: "byte \<Rightarrow> bytes \<Rightarrow> int \<Rightarrow> bool" where
  "record_matches wanted buf p =
     (slice buf p (p + 1) = [0x16] \<and> slice buf (p + 5) (p + 6) = [wanted])"

definition record_payload :: "bytes \<Rightarrow> int \<Rightarrow> bytes" where
  "record_payload buf p = slice buf (p + 5) (p + 5 + record_length_at buf p)"

function record_starts :: "bytes \<Rightarrow> int \<Rightarrow> int list" where
  "record_starts buf p =
     (if 0 \<le> p \<and> p < int (length buf)
      then p # record_starts buf (p + 5 + record_length_at buf p)
      else [])"
  by pat_completeness auto
termination
  by (relation "measure (\<lambda>(buf, p). nat (int (length buf) - p))")
    (auto simp: record_length_at_def)

declare record_starts.simps [simp del]

fun steps_by_record :: "bytes \<Rightarrow> int list \<Rightarrow> bool" where
  \<comment> \<open>each position of the list is the one before it plus 5 plus the length field there\<close>
  "steps_by_record buf (p # q # ps) =
     (q = p + 5 + record_length_at buf p \<and> steps_by_record buf (q # ps))"
| "steps_by_record buf ps = True"

subsection \<open>Session information\<close>

definition protocol_table :: "bytes \<rightharpoonup> string" where
  "protocol_table =
     map_of [([0x03, 0x00], ''SSLv3''), ([0x03, 0x01], ''TLSv1''), ([0x03, 0x02], ''TLSv1.1''),
             ([0x03, 0x03], ''TLSv1.2''), ([0x03, 0x04], ''TLSv1.3'')]"

function extension_loop :: "bytes \<Rightarrow> string \<Rightarrow> int \<Rightarrow> int \<Rightarrow> string option \<Rightarrow> string option" where
  \<comment> \<open>The two \<open>while extension_start < extensions_end\<close> loops: they differ in the value
      (\<open>"new"\<close>, \<open>"reused"\<close>) given to \<open>session_ticket\<close> at an extension of type 35.\<close>
  "extension_loop tls_record flag extension_start extensions_end ticket =
     (if extension_start < extensions_end
      then
        let extension_type =
              int_from_bytes (slice tls_record extension_start (extension_start + 2));
            extension_length =
              int (int_from_bytes (slice tls_record (extension_start + 2) (extension_start + 4)))
        in extension_loop tls_record flag (extension_start + 4 + extension_length) extensions_end
             (if extension_type = 35 then Some flag else ticket)
      else ticket)"
  by pat_completeness auto
termination
  by (relation "measure (\<lambda>(r, f, extension_start, extensions_end, t).
                  nat (extensions_end - extension_start))") auto

declare extension_loop.simps [simp del]

definition scan_extensions :: "bytes \<Rightarrow> string \<Rightarrow> int \<Rightarrow> string option \<Rightarrow> string option" where
  \<comment> \<open>\<open>if extensions_length_start < len(tls_record): \<dots>\<close> with its loop\<close>
  "scan_extensions tls_record flag extensions_length_start ticket =
     (if extensions_length_start < int (length tls_record)
      then
        let extentions_length =
              int (int_from_bytes
                     (slice tls_record extensions_length_start (extensions_length_start + 2)));
            extensions_start = extensions_length_start + 2;
            extensions_end = extensions_start + extentions_length
        in extension_loop tls_record flag extensions_start extensions_end ticket
      else ticket)"

record server_hello =
  sh_protocol :: "string option"
  sh_cipher_suite :: "string option"
  sh_compression :: bool
  sh_session_ticket :: "string option"
  sh_server_session_id :: "bytes option"

definition parse_server_hello :: "(bytes \<rightharpoonup> string) \<Rightarrow> bytes \<Rightarrow> error + server_hello" where
  \<comment> \<open>Lines 111 to 157: the values of \<open>protocol\<close>, \<open>cipher_suite\<close>, \<open>compression\<close>,
      \<open>session_ticket\<close> and \<open>server_session_id\<close> after the server buffer is read.
      \<open>CIPHER_SUITE_MAP\<close> is bundled data that is not among the sources: a parameter.\<close>
  "parse_server_hello CIPHER_SUITE_MAP server_handshake_bytes =
     (let initial = \<lparr>sh_protocol = None, sh_cipher_suite = None, sh_compression = False,
                      sh_session_ticket = None, sh_server_session_id = None\<rparr>
      in if slice server_handshake_bytes 0 1 = [0x16]
         then
           let server_tls_record_header = slice server_handshake_bytes 0 5;
               server_tls_record_length = int (int_from_bytes (slice_from server_tls_record_header 3));
               server_tls_record = slice server_handshake_bytes 5 (5 + server_tls_record_length)
           in if slice server_tls_record 0 1 = [0x02]
              then
                (case protocol_table (slice server_tls_record 4 6) of
                   None \<Rightarrow> Inl KeyError
                 | Some protocol \<Rightarrow>
                     let session_id_length = int (int_from_bytes (slice server_tls_record 38 39));
                         server_session_id =
                           (if 0 < session_id_length
                            then Some (slice server_tls_record 39 (39 + session_id_length))
                            else None);
                         cipher_suite_start = 39 + session_id_length;
                         cipher_suite_bytes =
                           slice server_tls_record cipher_suite_start (cipher_suite_start + 2)
                     in case CIPHER_SUITE_MAP cipher_suite_bytes of
                          None \<Rightarrow> Inl KeyError
                        | Some cipher_suite \<Rightarrow>
                            let compression_start = cipher_suite_start + 2;
                                compression =
                                  (slice server_tls_record compression_start (compression_start + 1)
                                     \<noteq> [0x00]);
                                extensions_length_start = compression_start + 1
                            in Inr \<lparr>sh_protocol = Some protocol,
                                    sh_cipher_suite = Some cipher_suite,
                                    sh_compression = compression,
                                    sh_session_ticket =
                                      scan_extensions server_tls_record ''new''
                                        extensions_length_start None,
                                    sh_server_session_id = server_session_id\<rparr>)
              else Inr initial
         else Inr initial)"

definition parse_client_hello ::
  "bytes \<Rightarrow> bytes option \<Rightarrow> string option \<Rightarrow> string option \<times> bytes option"
where
  \<comment> \<open>Lines 159 to 190: \<open>session_ticket\<close> and \<open>client_session_id\<close> after the client buffer is
      read, from the \<open>server_session_id\<close> and \<open>session_ticket\<close> the server buffer gave.\<close>
  "parse_client_hello client_handshake_bytes server_session_id ticket =
     (if slice client_handshake_bytes 0 1 = [0x16]
      then
        let client_tls_record_header = slice client_handshake_bytes 0 5;
            client_tls_record_length = int (int_from_bytes (slice_from client_tls_record_header 3));
            client_tls_record = slice client_handshake_bytes 5 (5 + client_tls_record_length)
        in if slice client_tls_record 0 1 = [0x01]
           then
             let session_id_length = int (int_from_bytes (slice client_tls_record 38 39));
                 client_session_id =
                   (if 0 < session_id_length
                    then Some (slice client_tls_record 39 (39 + session_id_length))
                    else None);
                 cipher_suite_start = 39 + session_id_length;
                 cipher_suite_length =
                   int (int_from_bytes
                          (slice client_tls_record cipher_suite_start (cipher_suite_start + 2)));
                 compression_start = cipher_suite_start + 2 + cipher_suite_length;
                 compression_length =
                   int (int_from_bytes
                          (slice client_tls_record compression_start (compression_start + 1)))
             in (if server_session_id = None \<and> ticket = None
                 then scan_extensions client_tls_record ''reused''
                        (compression_start + 1 + compression_length) ticket
                 else ticket,
                 client_session_id)
           else (ticket, None)
      else (ticket, None))"

text \<open>The dictionary that \<open>parse_session_info\<close> returns.\<close>

record session_info =
  protocol :: "string option"
  cipher_suite :: "string option"
  compression :: bool
  session_id :: "string option"
  session_ticket :: "string option"

definition parse_session_info ::
  "(bytes \<rightharpoonup> string) \<Rightarrow> bytes \<Rightarrow> bytes \<Rightarrow> error + session_info"
where
  "parse_session_info CIPHER_SUITE_MAP server_handshake_bytes client_handshake_bytes =
     (case parse_server_hello CIPHER_SUITE_MAP server_handshake_bytes of
        Inl err \<Rightarrow> Inl err
      | Inr sh \<Rightarrow>
          (case parse_client_hello client_handshake_bytes (sh_server_session_id sh)
                  (sh_session_ticket sh) of
             (ticket, client_session_id) \<Rightarrow>
               let server_session_id = sh_server_session_id sh
               in Inr \<lparr>protocol = sh_protocol sh,
                       cipher_suite = sh_cipher_suite sh,
                       compression = sh_compression sh,
                       session_id =
                         (if server_session_id \<noteq> None
                          then (if client_session_id = None then Some ''new''
                                else if client_session_id \<noteq> server_session_id then Some ''new''
                                else Some ''reused'')
                          else None),
                       session_ticket = ticket\<rparr>))"

subsection \<open>Example buffers\<close>

text \<open>
  The scenarios of section 8 of the specification: a ServerHello for TLS 1.2 with cipher suite
  \<open>00 2F\<close>, no compression, a 32-byte session id and no extensions, a ClientHello that
  presents the same session id, and a buffer in which an alert record precedes a
  ServerKeyExchange whose length field for \<open>p\<close> is \<open>0x0100\<close>.
\<close>

definition example_session :: bytes where
  "example_session = map of_nat [100..<132]"

definition example_server_hello :: bytes where
  "example_server_hello =
     [0x16, 3, 3, 0, 74] @ [2, 0, 0, 70, 3, 3] @ replicate 32 7 @ [32] @ example_session
       @ [0x00, 0x2F, 0]"

definition example_client_hello :: bytes where
  "example_client_hello =
     [0x16, 3, 3, 0, 77] @ [1, 0, 0, 73, 3, 3] @ replicate 32 9 @ [32] @ example_session
       @ [0, 2, 0x00, 0x2F, 1, 0]"

definition example_cipher_suites :: "bytes \<rightharpoonup> string" where
  "example_cipher_suites = map_of [([0x00, 0x2F], ''TLS_RSA_WITH_AES_128_CBC_SHA'')]"

definition example_key_exchange :: bytes where
  "example_key_exchange =
     [0x15, 3, 3, 0, 2, 1, 0] @ [0x16, 3, 3, 0, 6, 0x0c, 0, 0, 2, 0x01, 0x00]"

section \<open>A stand-in digest for concrete runs\<close>

text \<open>
  The theorems below hold for every \<open>hashlib\<close> whose digests have the lengths of the table.
  To run the functions on concrete inputs, \<open>toy_hashlib\<close> is one such function: byte \<open>i\<close>
  of the digest is \<open>i\<close> plus the length of the data plus the sum of its bytes plus 128.
\<close>

definition toy_digest :: "nat \<Rightarrow> bytes \<Rightarrow> bytes" where
  "toy_digest n data = map (\<lambda>i. of_nat (i + length data) + sum_list data + 128) [0..<n]"

definition toy_hashlib :: "string \<Rightarrow> bytes \<Rightarrow> bytes" where
  "toy_hashlib name data =
     (case hash_length_table name of None \<Rightarrow> [] | Some n \<Rightarrow> toy_digest (nat n) data)"

definition toy_urandom :: "int \<Rightarrow> bytes" where
  "toy_urandom n = map (\<lambda>i. of_nat (7 * i + 3)) [0..<nat n]"

text \<open>
  A 64-byte signature for a 512-bit key: zero bytes up to the trailer \<open>0xBC\<close>. It passes the
  trailer check and the check of the leading bit.
\<close>

definition example_signature :: bytes where
  "example_signature = replicate 63 0 @ [0xBC]"

section \<open>Padding: determinism without salt\<close>

text \<open>
  Claim C10. With \<open>salt_length = 0\<close>, \<open>add_pss_padding\<close> does not consult the randomness
  source: whatever \<open>os.urandom\<close> would return, two calls with the same hash, key length and
  message give the same result.
\<close>

theorem add_pss_padding_no_salt_deterministic:
  "add_pss_padding hashlib urandom hash_algorithm 0 key_length message =
   add_pss_padding hashlib urandom' hash_algorithm 0 key_length message"
  by (simp add: add_pss_padding_def)

theorem add_pss_padding_no_salt_deterministic_witness:
  "add_pss_padding toy_hashlib toy_urandom ''sha1'' 0 512 [1, 2, 3] =
   add_pss_padding toy_hashlib (\<lambda>n. [0xFF]) ''sha1'' 0 512 [1, 2, 3]"
  by (rule add_pss_padding_no_salt_deterministic)

section \<open>Slices with indices that are not negative\<close>

lemma slice_nonneg:
  "0 \<le> i \<Longrightarrow> 0 \<le> j \<Longrightarrow> slice xs i j = take (nat j - nat i) (drop (nat i) xs)"
  by (auto simp: slice_def Let_def min_def nat_diff_distrib')

lemma slice_from_nonneg: "0 \<le> i \<Longrightarrow> slice_from xs i = drop (nat i) xs"
  by (auto simp: slice_from_def Let_def min_def)

lemma take_drop_take_drop:
  "A \<le> B \<Longrightarrow> B \<le> N \<Longrightarrow>
   take (B - A) (drop A (take N (drop P xs))) = take (B - A) (drop (P + A) xs)"
  by (simp add: drop_take min_absorb1 add.commute)

lemma slice_of_slice:
  assumes "0 \<le> p" "0 \<le> a" "a \<le> b" "b \<le> n"
  shows "slice (slice xs p (p + n)) a b = slice xs (p + a) (p + b)"
proof -
  have "slice (slice xs p (p + n)) a b =
        take (nat b - nat a) (drop (nat a) (take (nat n) (drop (nat p) xs)))"
    using assms by (simp add: slice_nonneg nat_add_distrib)
  also have "\<dots> = take (nat b - nat a) (drop (nat p + nat a) xs)"
    using assms by (intro take_drop_take_drop) auto
  also have "\<dots> = slice xs (p + a) (p + b)"
    using assms by (simp add: slice_nonneg nat_add_distrib)
  finally show ?thesis .
qed

lemma slice_from_of_slice:
  assumes "0 \<le> p" "0 \<le> a" "a \<le> n"
  shows "slice_from (slice xs p (p + n)) a = slice xs (p + a) (p + n)"
proof -
  have "slice_from (slice xs p (p + n)) a = drop (nat a) (take (nat n) (drop (nat p) xs))"
    using assms by (simp add: slice_nonneg slice_from_nonneg nat_add_distrib)
  also have "\<dots> = take (nat n - nat a) (drop (nat p + nat a) xs)"
    by (simp add: drop_take add.commute)
  also have "\<dots> = slice xs (p + a) (p + n)"
    using assms by (simp add: slice_nonneg nat_add_distrib)
  finally show ?thesis .
qed

section \<open>The record scanners\<close>

lemma scan_records_out:
  "\<not> p < int (length buf) \<Longrightarrow> scan_records wanted buf p = None"
  by (subst scan_records.simps) simp

lemma scan_records_step:
  assumes "0 \<le> p" "p < int (length buf)"
  shows "scan_records [w] buf p =
           (if record_matches w buf p then Some (record_payload buf p)
            else scan_records [w] buf (p + 5 + record_length_at buf p))"
proof -
  have hdr1: "slice (slice buf p (p + 5)) 0 1 = slice buf p (p + 1)"
    using slice_of_slice [of p 0 1 5 buf] assms by simp
  have hdr3: "slice_from (slice buf p (p + 5)) 3 = slice buf (p + 3) (p + 5)"
    using slice_from_of_slice [of p 3 5 buf] assms by simp
  have cond: "(slice (slice buf p (p + 5)) 0 1 = [0x16] \<and> slice buf (p + 5) (p + 6) = [w])
                = record_matches w buf p"
    by (simp add: hdr1 record_matches_def)
  show ?thesis
    using assms(2)
    by (subst scan_records.simps)
      (simp only: Let_def cond hdr3 if_True record_payload_def record_length_at_def)
qed

lemma record_starts_in:
  "0 \<le> p \<Longrightarrow> p < int (length buf) \<Longrightarrow>
   record_starts buf p = p # record_starts buf (p + 5 + record_length_at buf p)"
  by (subst record_starts.simps) simp

lemma record_starts_out:
  "\<not> (0 \<le> p \<and> p < int (length buf)) \<Longrightarrow> record_starts buf p = []"
  by (subst record_starts.simps) (simp only: if_False)

lemma scan_records_find:
  "0 \<le> p \<Longrightarrow>
   scan_records [w] buf p =
     (case find (record_matches w buf) (record_starts buf p) of
        None \<Rightarrow> None
      | Some q \<Rightarrow> Some (record_payload buf q))"
proof (induction buf p rule: record_starts.induct)
  case (1 buf p)
  show ?case
  proof (cases "p < int (length buf)")
    case False
    then show ?thesis
      by (simp add: scan_records_out record_starts_out)
  next
    case True
    have len: "0 \<le> p + 5 + record_length_at buf p"
      using "1.prems" by (simp add: record_length_at_def)
    show ?thesis
      using "1.IH" "1.prems" True len
      by (simp add: scan_records_step record_starts_in)
  qed
qed

lemma record_starts_lower: "q \<in> set (record_starts buf p) \<Longrightarrow> p \<le> q"
proof (induction buf p rule: record_starts.induct)
  case (1 buf p)
  show ?case
  proof (cases "0 \<le> p \<and> p < int (length buf)")
    case True
    with "1.prems" have "q = p \<or> q \<in> set (record_starts buf (p + 5 + record_length_at buf p))"
      by (simp add: record_starts_in)
    then show ?thesis
      using "1.IH" True by (auto simp: record_length_at_def)
  next
    case False
    with "1.prems" show ?thesis by (simp add: record_starts_out)
  qed
qed

lemma record_starts_increasing: "sorted_wrt (<) (record_starts buf p)"
proof (induction buf p rule: record_starts.induct)
  case (1 buf p)
  show ?case
  proof (cases "0 \<le> p \<and> p < int (length buf)")
    case True
    have "\<forall>q\<in>set (record_starts buf (p + 5 + record_length_at buf p)). p < q"
      using record_starts_lower [of _ buf "p + 5 + record_length_at buf p"]
      by (fastforce simp: record_length_at_def)
    with True "1.IH" show ?thesis
      by (simp add: record_starts_in)
  next
    case False
    then show ?thesis by (simp add: record_starts_out)
  qed
qed

lemma record_starts_steps: "steps_by_record buf (record_starts buf p)"
proof (induction buf p rule: record_starts.induct)
  case (1 buf p)
  show ?case
  proof (cases "0 \<le> p \<and> p < int (length buf)")
    case True
    let ?q = "p + 5 + record_length_at buf p"
    show ?thesis
    proof (cases "0 \<le> ?q \<and> ?q < int (length buf)")
      case False
      with True show ?thesis
        by (simp add: record_starts_in record_starts_out [of ?q])
    next
      case q: True
      have "steps_by_record buf (record_starts buf ?q)"
        using "1.IH" True by simp
      with True q show ?thesis
        by (simp add: record_starts_in [of p] record_starts_in [of ?q])
    qed
  next
    case False
    then show ?thesis by (simp add: record_starts_out)
  qed
qed

lemma int_from_bytes_two: "int_from_bytes [a, b] = 256 * unat a + unat b"
  by (simp add: int_from_bytes_def)

lemma take2_drop:
  "n + 2 \<le> length xs \<Longrightarrow> take 2 (drop n xs) = [xs ! n, xs ! Suc n]"
  by (simp add: take_Suc_conv_app_nth numeral_2_eq_2 hd_drop_conv_nth take_Suc)

lemma payload_length_field:
  assumes "0 \<le> p" "6 \<le> record_length_at buf p" "p + 11 \<le> int (length buf)"
  shows "slice (record_payload buf p) 4 6 = [buf ! nat (p + 9), buf ! nat (p + 10)]"
proof -
  have "slice (record_payload buf p) 4 6 = slice buf (p + 5 + 4) (p + 5 + 6)"
    unfolding record_payload_def using assms
    by (intro slice_of_slice) auto
  also have "\<dots> = take 2 (drop (nat (p + 9)) buf)"
    using assms by (simp add: slice_nonneg nat_add_distrib add.commute)
  also have "\<dots> = [buf ! nat (p + 9), buf ! Suc (nat (p + 9))]"
    using assms by (intro take2_drop) linarith
  also have "Suc (nat (p + 9)) = nat (p + 10)"
    using assms by linarith
  finally show ?thesis .
qed

lemma find_Some_set: "find P xs = Some x \<Longrightarrow> x \<in> set xs"
  by (auto simp: find_Some_iff)

lemma example_starts: "record_starts example_key_exchange 0 = [0, 7]"
  by (simp add: record_starts.simps example_key_exchange_def record_length_at_def slice_def
      int_from_bytes_def)

lemma example_find:
  "find (record_matches 0x0c example_key_exchange) (record_starts example_key_exchange 0) = Some 7"
  unfolding example_starts
  by (simp add: record_matches_def example_key_exchange_def slice_def)

lemma example_fields:
  "6 \<le> record_length_at example_key_exchange 7 \<and> 7 + 11 \<le> int (length example_key_exchange)
   \<and> example_key_exchange ! nat (7 + 9) = 1 \<and> example_key_exchange ! nat (7 + 10) = 0"
  by (simp add: record_length_at_def example_key_exchange_def slice_def int_from_bytes_def)

lemma example_no_certificate:
  "find (record_matches 0x0b example_key_exchange) (record_starts example_key_exchange 0) = None"
  unfolding example_starts
  by (simp add: record_matches_def example_key_exchange_def slice_def)

lemma example_payload: "record_payload example_key_exchange 7 = [0x0c, 0, 0, 2, 1, 0]"
  by (simp add: record_payload_def record_length_at_def example_key_exchange_def slice_def
      int_from_bytes_def)

text \<open>
  Claim C7. The record loop of \<open>extract_chain\<close> and \<open>get_dh_params_length\<close>: at a record
  that is not a handshake record (type \<open>0x16\<close>) followed by the wanted sub-type byte, the
  loop goes on from the pointer plus 5 plus the record's length field; at one that is, it
  stops with that record's payload. From pointer 0 the result is therefore the payload at the
  first matching position of the walk \<open>record_starts\<close>, whose positions grow strictly, each
  by 5 plus the length field before it. When no position matches, \<open>extract_chain\<close> returns the
  empty list and \<open>get_dh_params_length\<close> returns \<open>None\<close>; neither raises.
\<close>

theorem record_scanners_walk:
  "(0 \<le> p \<and> p < int (length buf) \<and> \<not> record_matches wanted buf p
      \<longrightarrow> scan_records [wanted] buf p =
            scan_records [wanted] buf (p + 5 + record_length_at buf p))
   \<and> (0 \<le> p \<and> p < int (length buf) \<and> record_matches wanted buf p
      \<longrightarrow> scan_records [wanted] buf p = Some (record_payload buf p))
   \<and> scan_records [wanted] buf 0 =
       (case find (record_matches wanted buf) (record_starts buf 0) of
          None \<Rightarrow> None
        | Some q \<Rightarrow> Some (record_payload buf q))
   \<and> steps_by_record buf (record_starts buf 0)
   \<and> sorted_wrt (<) (record_starts buf 0)
   \<and> (find (record_matches 0x0b buf) (record_starts buf 0) = None
        \<longrightarrow> extract_chain load buf = Inr [])
   \<and> (find (record_matches 0x0c buf) (record_starts buf 0) = None
        \<longrightarrow> get_dh_params_length buf = None)"
  by (simp add: scan_records_step scan_records_find record_starts_steps record_starts_increasing
      extract_chain_def get_dh_params_length_def)

theorem record_scanners_walk_witness:
  "scan_records [0x0c] example_key_exchange 0 = Some [0x0c, 0, 0, 2, 1, 0]
   \<and> extract_chain Inr example_key_exchange = Inr []"
proof -
  note walk = record_scanners_walk [of 0 example_key_exchange "0x0c" Inr]
  have "scan_records [0x0c] example_key_exchange 0 =
          (case find (record_matches 0x0c example_key_exchange)
                  (record_starts example_key_exchange 0) of
             None \<Rightarrow> None
           | Some q \<Rightarrow> Some (record_payload example_key_exchange q))"
    using walk by blast
  moreover have "extract_chain Inr example_key_exchange = Inr []"
    using walk example_no_certificate by blast
  ultimately show ?thesis
    by (simp add: example_find example_payload)
qed

text \<open>
  Claim C8. \<open>get_dh_params_length\<close> returns eight times the big-endian value of bytes 4 and 5
  of the first ServerKeyExchange message of the walk, and \<open>None\<close> when the walk has none.
  When the record holds at least six bytes of payload, these are the bytes at offsets 9 and
  10 from the start of the record. A length field of \<open>0x0100\<close> gives 2048.
\<close>

theorem get_dh_params_length_reads_p_length:
  "get_dh_params_length buf =
     (case find (record_matches 0x0c buf) (record_starts buf 0) of
        None \<Rightarrow> None
      | Some p \<Rightarrow> Some (int_from_bytes (slice (record_payload buf p) 4 6) * 8))
   \<and> (find (record_matches 0x0c buf) (record_starts buf 0) = Some p
        \<and> 6 \<le> record_length_at buf p \<and> p + 11 \<le> int (length buf)
      \<longrightarrow> get_dh_params_length buf =
            Some ((256 * unat (buf ! nat (p + 9)) + unat (buf ! nat (p + 10))) * 8))"
proof (intro conjI impI)
  show eq: "get_dh_params_length buf =
     (case find (record_matches 0x0c buf) (record_starts buf 0) of
        None \<Rightarrow> None
      | Some p \<Rightarrow> Some (int_from_bytes (slice (record_payload buf p) 4 6) * 8))"
    by (simp add: get_dh_params_length_def scan_records_find split: option.split)
  assume h: "find (record_matches 0x0c buf) (record_starts buf 0) = Some p
        \<and> 6 \<le> record_length_at buf p \<and> p + 11 \<le> int (length buf)"
  then have "0 \<le> p"
    using record_starts_lower [of p buf 0] find_Some_set by fastforce
  with h show "get_dh_params_length buf =
            Some ((256 * unat (buf ! nat (p + 9)) + unat (buf ! nat (p + 10))) * 8)"
    by (simp add: eq payload_length_field int_from_bytes_two)
qed

theorem get_dh_params_length_reads_p_length_witness:
  "get_dh_params_length example_key_exchange = Some 2048"
proof -
  have "get_dh_params_length example_key_exchange =
          Some ((256 * unat (example_key_exchange ! nat (7 + 9))
                 + unat (example_key_exchange ! nat (7 + 10))) * 8)"
    using get_dh_params_length_reads_p_length [of example_key_exchange 7]
      example_find example_fields
    by blast
  then show ?thesis
    using example_fields by simp
qed

section \<open>Session information\<close>

lemma example_session_length: "length example_session = 32"
  by (simp add: example_session_def)

lemma example_server_record:
  "slice example_server_hello 5 (5 + int (int_from_bytes (slice_from (slice example_server_hello 0 5) 3)))
     = [2, 0, 0, 70, 3, 3] @ replicate 32 7 @ [32] @ example_session @ [0x00, 0x2F, 0]"
  by (simp add: example_server_hello_def slice_def slice_from_def int_from_bytes_def
      example_session_length)

lemma example_server_parsed:
  "parse_server_hello example_cipher_suites example_server_hello =
     Inr \<lparr>sh_protocol = Some ''TLSv1.2'',
          sh_cipher_suite = Some ''TLS_RSA_WITH_AES_128_CBC_SHA'',
          sh_compression = False,
          sh_session_ticket = None,
          sh_server_session_id = Some example_session\<rparr>"
proof -
  have first: "slice example_server_hello 0 1 = [0x16]"
    by (simp add: example_server_hello_def slice_def)
  show ?thesis
    unfolding parse_server_hello_def Let_def example_server_record first
    by (simp add: slice_def slice_from_def int_from_bytes_def example_session_length
        protocol_table_def example_cipher_suites_def scan_extensions_def)
qed


lemma example_client_record:
  "slice example_client_hello 5 (5 + int (int_from_bytes (slice_from (slice example_client_hello 0 5) 3)))
     = [1, 0, 0, 73, 3, 3] @ replicate 32 9 @ [32] @ example_session @ [0, 2, 0x00, 0x2F, 1, 0]"
  by (simp add: example_client_hello_def slice_def slice_from_def int_from_bytes_def
      example_session_length)

lemma example_client_parsed:
  "parse_client_hello example_client_hello (Some example_session) None =
     (None, Some example_session)"
proof -
  have first: "slice example_client_hello 0 1 = [0x16]"
    by (simp add: example_client_hello_def slice_def)
  show ?thesis
    unfolding parse_client_hello_def Let_def example_client_record first
    by (simp add: slice_def int_from_bytes_def example_session_length)
qed

text \<open>
  Claim C5. Whenever the server buffer is read without an error, \<open>parse_session_info\<close>
  returns, and its \<open>session_id\<close> follows the table: no server session id gives \<open>None\<close>
  whatever the client sent; a server session id and no client session id give \<open>"new"\<close>; two
  equal session ids give \<open>"reused"\<close>; two different ones give \<open>"new"\<close>.
\<close>

theorem parse_session_info_session_id:
  assumes "parse_server_hello CIPHER_SUITE_MAP server_handshake_bytes = Inr sh"
  shows "\<exists>info. parse_session_info CIPHER_SUITE_MAP server_handshake_bytes client_handshake_bytes
                  = Inr info
          \<and> session_id info =
              (case sh_server_session_id sh of
                 None \<Rightarrow> None
               | Some server_session_id \<Rightarrow>
                   (case snd (parse_client_hello client_handshake_bytes
                                (sh_server_session_id sh) (sh_session_ticket sh)) of
                      None \<Rightarrow> Some ''new''
                    | Some client_session_id \<Rightarrow>
                        if client_session_id = server_session_id then Some ''reused''
                        else Some ''new''))"
  using assms
  by (auto simp: parse_session_info_def Let_def split: prod.splits option.splits)

theorem parse_session_info_session_id_witness:
  "\<exists>info. parse_session_info example_cipher_suites example_server_hello example_client_hello
            = Inr info
        \<and> session_id info = Some ''reused''"
  using parse_session_info_session_id [OF example_server_parsed, of example_client_hello]
  by (simp add: example_client_parsed)

lemma example_session_info:
  "parse_session_info example_cipher_suites example_server_hello example_client_hello =
     Inr \<lparr>protocol = Some ''TLSv1.2'', cipher_suite = Some ''TLS_RSA_WITH_AES_128_CBC_SHA'',
          compression = False, session_id = Some ''reused'', session_ticket = None\<rparr>"
  by (simp add: parse_session_info_def example_server_parsed example_client_parsed)

section \<open>True division and ceiling on small arguments\<close>


lemma bit_length_le: "n < 2 ^ k \<Longrightarrow> bit_length n \<le> k"
proof (induction n arbitrary: k rule: bit_length.induct)
  case (1 n)
  show ?case
  proof (cases "n = 0")
    case True
    then show ?thesis by (simp add: bit_length.simps)
  next
    case False
    with "1.prems" obtain j where k: "k = Suc j" by (cases k) auto
    with "1.prems" have "n div 2 < 2 ^ j" by auto
    then have "bit_length (n div 2) \<le> j" using 1 False by simp
    with False k show ?thesis by (subst bit_length.simps) simp
  qed
qed

lemma bit_length_pos: "0 < n \<Longrightarrow> 0 < bit_length n"
  by (subst bit_length.simps) simp

lemma ceil_between:
  fixes c m E :: int
  assumes "c * E < m" "m \<le> c * E + E" "0 < E"
  shows "- ((- m) div E) = c + 1"
proof -
  have "(- m) div E = - (c + 1)"
  proof (rule int_div_pos_eq)
    show "- m = E * - (c + 1) + ((c + 1) * E - m)" by (simp add: algebra_simps)
    show "0 \<le> (c + 1) * E - m" using assms by (simp add: algebra_simps)
    show "(c + 1) * E - m < E" using assms by (simp add: algebra_simps)
  qed
  then show ?thesis by simp
qed

lemma ceil_exact_multiple:
  fixes c E :: int
  assumes "0 < E"
  shows "- ((- (c * E)) div E) = c"
proof -
  have "(- c) * E div E = - c"
    using assms by (intro nonzero_mult_div_cancel_right) simp
  then show ?thesis by simp
qed

lemma round_quotient_ceil:
  fixes n d k m :: nat
  assumes d: "0 < d" "2 * d \<le> 2 ^ k"
    and m: "m = (if d < 2 * ((n * 2 ^ k) mod d)
                    \<or> (2 * ((n * 2 ^ k) mod d) = d \<and> odd ((n * 2 ^ k) div d))
                 then (n * 2 ^ k) div d + 1 else (n * 2 ^ k) div d)"
  shows "- ((- int m) div 2 ^ k) = (int n + int d - 1) div int d"
proof -
  define E :: nat where "E = 2 ^ k"
  define c where "c = n div d"
  define f where "f = n mod d"
  have n: "n = c * d + f" by (simp add: c_def f_def)
  have fd: "f < d" using d by (simp add: f_def)
  have E2: "2 * d \<le> E" using d by (simp add: E_def)
  have nE: "n * E = (c * E) * d + f * E" by (simp add: n algebra_simps)
  have q: "(n * E) div d = c * E + (f * E) div d"
    using d by (simp add: nE)
  have r: "(n * E) mod d = (f * E) mod d"
    by (simp add: nE)
  show ?thesis
  proof (cases "f = 0")
    case True
    then have "m = c * E" using m d by (simp add: q r E_def [symmetric])
    moreover have "(int n + int d - 1) div int d = int c"
    proof -
      have "int n + int d - 1 = int d * int c + (int d - 1)" using True by (simp add: n)
      then show ?thesis
        using d by (intro int_div_pos_eq [where r = "int d - 1"]) auto
    qed
    moreover have "- ((- (int c * int E)) div int E) = int c"
      using E2 d by (intro ceil_exact_multiple) simp
    ultimately show ?thesis by (simp add: E_def)
  next
    case False
    have lo: "2 \<le> (f * E) div d"
    proof -
      have "E \<le> f * E" using False by simp
      with E2 have "2 * d \<le> f * E" by (rule order_trans)
      then have "(2 * d) div d \<le> (f * E) div d" by (rule div_le_mono)
      then show ?thesis using d by simp
    qed
    have hi: "(f * E) div d + 2 \<le> E"
    proof -
      have "f * E \<le> (d - 1) * E" using fd by (intro mult_le_mono1) simp
      also have "\<dots> = d * E - E" by (simp add: algebra_simps)
      also have "\<dots> \<le> d * E - 2 * d" using E2 by (intro diff_le_mono2) simp
      also have "\<dots> = (E - 2) * d" by (simp add: algebra_simps)
      finally have "(f * E) div d \<le> ((E - 2) * d) div d" by (rule div_le_mono)
      then have "(f * E) div d \<le> E - 2" using d by simp
      then show ?thesis using E2 d by simp
    qed
    have mq: "(n * E) div d \<le> m \<and> m \<le> (n * E) div d + 1"
      using m by (simp add: E_def)
    have "int c * int E < int m"
    proof -
      have "c * E < m" using mq lo by (simp add: q)
      then have "int (c * E) < int m" by (simp only: of_nat_less_iff)
      then show ?thesis by simp
    qed
    moreover have "int m \<le> int c * int E + int E"
    proof -
      have "m \<le> c * E + E" using mq hi by (simp add: q)
      then have "int m \<le> int (c * E + E)" by (simp only: of_nat_le_iff)
      then show ?thesis by simp
    qed
    moreover have "0 < int E" using E2 d by simp
    ultimately have "- ((- int m) div int E) = int c + 1"
      by (rule ceil_between)
    moreover have "(int n + int d - 1) div int d = int c + 1"
    proof -
      have "int n + int d - 1 = int d * (int c + 1) + (int f - 1)"
        by (simp add: n algebra_simps)
      then show ?thesis
        using False fd by (intro int_div_pos_eq [where r = "int f - 1"]) auto
    qed
    ultimately show ?thesis by (simp add: E_def)
  qed
qed


lemma scaled_divmod_neg:
  "e < 0 \<Longrightarrow> scaled_divmod n d e =
     ((n * 2 ^ nat (- e)) div d, (n * 2 ^ nat (- e)) mod d, d)"
  by (simp add: scaled_divmod_def Let_def)

lemma ceil_truediv_exact:
  assumes a: "0 < a" "a < 2 ^ 46" and b: "0 < b" "b \<le> 64"
  shows "ceil_truediv a b = Inr ((a + b - 1) div b)"
proof -
  define n where "n = nat a"
  define d where "d = nat b"
  define e0 where "e0 = int (bit_length n) - int (bit_length d) - 53"
  define e where
    "e = max (if 2 ^ 53 \<le> fst (scaled_divmod n d e0) then e0 + 1 else e0) (- 1074)"
  define k where "k = nat (- e)"
  have n: "0 < n" "n < 2 ^ 46" "int n = a"
    using a by (auto simp: n_def nat_less_iff)
  have d: "0 < d" "d \<le> 64" "int d = b"
    using b by (auto simp: d_def nat_le_iff)
  have "bit_length n \<le> 46" using n(2) by (rule bit_length_le)
  moreover have "0 < bit_length d" using d(1) by (rule bit_length_pos)
  ultimately have "e0 \<le> - 8" by (simp add: e0_def)
  then have e: "e \<le> - 7" by (simp add: e_def)
  then have k: "7 \<le> k" "e < 0" by (simp_all add: k_def)
  have "(2::nat) ^ 7 \<le> 2 ^ k" using k(1) by (intro power_increasing) simp_all
  then have dk: "2 * d \<le> 2 ^ k" using d(2) by simp
  define m where
    "m = (if d < 2 * ((n * 2 ^ k) mod d)
             \<or> (2 * ((n * 2 ^ k) mod d) = d \<and> odd ((n * 2 ^ k) div d))
          then (n * 2 ^ k) div d + 1 else (n * 2 ^ k) div d)"
  have round: "truediv_round n d = (m, e)"
    unfolding truediv_round_def Let_def e0_def [symmetric] e_def [symmetric]
    by (simp add: scaled_divmod_neg [OF k(2)] k_def [symmetric] m_def)
  have "- ((- int m) div 2 ^ k) = (int n + int d - 1) div int d"
    using d(1) dk m_def by (rule round_quotient_ceil)
  then have res: "- ((- int m) div 2 ^ k) = (a + b - 1) div b"
    by (simp add: n d)
  have "ceil_truediv a b = Inr (- ((- int m) div 2 ^ nat (- e)))"
    using a b k(2) round by (simp add: ceil_truediv_def n_def d_def)
  then show ?thesis
    using res by (simp add: k_def)
qed

lemma em_len_511: "ceil_truediv 511 8 = Inr 64"
  using ceil_truediv_exact [of 511 8] by simp











section \<open>Integers and byte strings\<close>

lemma int_from_bytes_Nil: "int_from_bytes [] = 0"
  by (simp add: int_from_bytes_def)

lemma int_from_bytes_snoc: "int_from_bytes (xs @ [b]) = int_from_bytes xs * 256 + unat b"
  by (simp add: int_from_bytes_def)

lemma unat_byte_less: "unat (b :: byte) < 256"
  using unsigned_less [of b, where ?'a = nat] by simp

lemma byte_of_mod: "(of_nat (n mod 256) :: byte) = of_nat n"
  by (simp add: word_of_nat_eq_iff take_bit_eq_mod)

lemma int_to_bytes_0: "int_to_bytes 0 = []"
  by (simp add: int_to_bytes.simps)

lemma int_to_bytes_pos:
  "0 < n \<Longrightarrow> int_to_bytes n = int_to_bytes (n div 256) @ [of_nat n]"
  by (subst int_to_bytes.simps) (simp add: byte_of_mod)

lemma fill_width_snoc: "fill_width (ys @ [b]) (Suc L) = fill_width ys L @ [b]"
  by (simp add: fill_width_def)

lemma fill_int_to_bytes: "fill_width (int_to_bytes (int_from_bytes xs)) (length xs) = xs"
proof (induction xs rule: rev_induct)
  case Nil
  show ?case by (simp add: int_from_bytes_Nil int_to_bytes_0 fill_width_def)
next
  case (snoc b xs)
  let ?n = "int_from_bytes xs * 256 + unat b"
  show ?case
  proof (cases "?n = 0")
    case True
    then have z: "int_from_bytes xs = 0" "b = 0" by (simp_all add: unsigned_eq_0_iff)
    with snoc have "xs = replicate (length xs) 0"
      by (simp add: int_to_bytes_0 fill_width_def)
    then have eq: "xs @ [b] = replicate (Suc (length xs)) 0"
      using z(2) by (metis replicate_Suc replicate_append_same)
    have "fill_width (int_to_bytes (int_from_bytes (xs @ [b]))) (length (xs @ [b]))
            = replicate (Suc (length xs)) 0"
      using True by (simp add: int_from_bytes_snoc int_to_bytes_0 fill_width_def)
    then show ?thesis by (simp only: eq)
  next
    case False
    then have "int_to_bytes ?n = int_to_bytes (?n div 256) @ [of_nat ?n]"
      by (intro int_to_bytes_pos) simp
    moreover have "?n div 256 = int_from_bytes xs"
      using unat_byte_less [of b] by simp
    moreover have "(of_nat ?n :: byte) = b"
    proof -
      have "?n mod 256 = unat b" using unat_byte_less [of b] by simp
      then have "(of_nat ?n :: byte) = of_nat (unat b)"
        using byte_of_mod [of ?n] by simp
      then show ?thesis by simp
    qed
    ultimately show ?thesis
      using snoc by (simp add: int_from_bytes_snoc fill_width_snoc)
  qed
qed

lemma xor_shift:
  fixes X Y u v :: nat
  assumes "u < 256" "v < 256"
  shows "(X * 256 + u) XOR (Y * 256 + v) = (X XOR Y) * 256 + (u XOR v)"
proof -
  let ?Z = "(X * 256 + u) XOR (Y * 256 + v)"
  have dX: "drop_bit 8 (X * 256 + u) = X" and dY: "drop_bit 8 (Y * 256 + v) = Y"
    using assms by (simp_all add: drop_bit_eq_div)
  have tX: "take_bit 8 (X * 256 + u) = u" and tY: "take_bit 8 (Y * 256 + v) = v"
    using assms by (simp_all add: take_bit_eq_mod)
  have d: "drop_bit 8 ?Z = X XOR Y"
    by (simp only: drop_bit_xor dX dY)
  have t: "take_bit 8 ?Z = u XOR v"
    by (simp only: take_bit_xor tX tY)
  have "?Z = push_bit 8 (drop_bit 8 ?Z) + take_bit 8 ?Z"
    by (simp only: bits_ident)
  then show ?thesis
    by (simp only: d t push_bit_eq_mult) simp
qed

lemma xor_from_bytes:
  "length xs = length ys \<Longrightarrow>
   int_from_bytes xs XOR int_from_bytes ys = int_from_bytes (map2 (XOR) xs ys)"
proof (induction xs arbitrary: ys rule: rev_induct)
  case Nil
  then show ?case by (simp add: int_from_bytes_Nil)
next
  case (snoc a xs)
  then obtain b ys' where ys: "ys = ys' @ [b]" and len: "length xs = length ys'"
    by (cases ys rule: rev_cases) auto
  have "map2 (XOR) (xs @ [a]) (ys' @ [b]) = map2 (XOR) xs ys' @ [a XOR b]"
    using len by simp
  moreover have "unat (a XOR b) = unat a XOR unat b"
    by (simp add: unsigned_xor_eq)
  ultimately show ?case
    using snoc.IH [OF len] unat_byte_less [of a] unat_byte_less [of b]
    by (simp add: ys int_from_bytes_snoc xor_shift)
qed

lemma xor_repad:
  assumes "length xs = length ys"
  shows "fill_width (int_to_bytes (int_from_bytes xs XOR int_from_bytes ys)) (length ys)
           = map2 (XOR) xs ys"
proof -
  have "length (map2 (XOR) xs ys) = length ys" using assms by simp
  then show ?thesis
    using fill_int_to_bytes [of "map2 (XOR) xs ys"] assms by (simp add: xor_from_bytes)
qed

lemma compare_fold:
  "length a = length b \<Longrightarrow>
   (foldl (\<lambda>result (x, y). result OR (x XOR y)) acc (zip a b) = (0 :: byte))
     = (acc = 0 \<and> a = b)"
proof (induction a b arbitrary: acc rule: list_induct2)
  case Nil
  show ?case by simp
next
  case (Cons x xs y ys)
  have "(x XOR y = 0) = (x = y)"
    by (metis bit.xor_left_self xor.right_neutral)
  then show ?case
    using Cons.IH [of "acc OR (x XOR y)"] by (simp add: or_eq_0_iff conj_ac)
qed

lemma constant_compare_eq: "constant_compare a b = (a = b)"
  by (auto simp: constant_compare_def compare_fold)

section \<open>The mask of the first byte\<close>

lemma base2_zeros:
  "foldl (\<lambda>acc c. 2 * acc + (if c = CHR ''1'' then 1 else 0)) (0::nat) (replicate a CHR ''0'') = 0"
  by (induction a) simp_all

lemma base2_ones:
  "foldl (\<lambda>acc c. 2 * acc + (if c = CHR ''1'' then 1 else 0)) (acc::nat) (replicate b CHR ''1'')
     = acc * 2 ^ b + (2 ^ b - 1)"
proof (induction b arbitrary: acc)
  case 0
  show ?case by simp
next
  case (Suc b)
  have one: "(1::nat) \<le> 2 ^ b" by simp
  have "foldl (\<lambda>acc c. 2 * acc + (if c = CHR ''1'' then 1 else 0)) acc
          (replicate (Suc b) CHR ''1'')
        = (2 * acc + 1) * 2 ^ b + (2 ^ b - 1)"
    by (simp add: Suc)
  also have "\<dots> = acc * 2 ^ Suc b + (2 ^ Suc b - 1)"
    using one by (simp add: algebra_simps)
  finally show ?case .
qed

lemma left_int_mask_value: "int_base2 (left_bit_mask zero_bits) = Inr (2 ^ nat (8 - zero_bits) - 1)"
proof -
  have "nat zero_bits = 0 \<longrightarrow> nat (8 - zero_bits) \<noteq> 0" by auto
  then have "left_bit_mask zero_bits \<noteq> []"
    by (auto simp: left_bit_mask_def)
  moreover have "list_all (\<lambda>c. c = CHR ''0'' \<or> c = CHR ''1'') (left_bit_mask zero_bits)"
    by (auto simp: left_bit_mask_def list_all_iff)
  ultimately show ?thesis
    by (simp add: int_base2_def) (simp add: left_bit_mask_def base2_zeros base2_ones)
qed

lemma byte_and_mask:
  "(of_nat (2 ^ k - 1 AND unat b) :: byte) = take_bit k b"
proof -
  have "(of_nat (2 ^ k - 1 AND unat b) :: byte) = of_nat (2 ^ k - 1) AND of_nat (unat b)"
    by (simp only: of_nat_and_eq)
  also have "of_nat (2 ^ k - 1) = (mask k :: byte)"
    by (simp add: mask_eq_exp_minus_1)
  finally show ?thesis
    by (simp add: take_bit_eq_mask and.commute)
qed

lemma byte_and_mask_Suc:
  "(of_nat (2 ^ k - Suc 0 AND unat b) :: byte) = take_bit k b"
  using byte_and_mask [of k b] by simp

lemma slice_0_1: "s \<noteq> [] \<Longrightarrow> slice s 0 1 = [hd s]"
  by (cases s) (simp_all add: slice_nonneg)

lemma slice_from_1: "slice_from s 1 = tl s"
  by (cases s) (simp_all add: slice_from_nonneg)

lemma mask_first_byte_value:
  assumes "s \<noteq> []" "0 \<le> zero_bits" "zero_bits \<le> 8"
  shows "mask_first_byte (2 ^ nat (8 - zero_bits) - 1) s = Inr (clear_top_bits zero_bits s)"
proof -
  obtain b rest where s: "s = b # rest" using assms(1) by (cases s) auto
  show ?thesis
  proof (cases "(2::nat) ^ nat (8 - zero_bits) - 1 = 255")
    case True
    then have "(2::nat) ^ nat (8 - zero_bits) = 2 ^ 8" by simp
    then have "nat (8 - zero_bits) = 8" by (simp only: power_inject_exp)
    then have "take_bit (nat (8 - zero_bits)) b = b" by (simp add: take_bit_word_eq_self)
    with True show ?thesis
      by (simp add: mask_first_byte_def clear_top_bits_def s)
  next
    case False
    then show ?thesis
      by (simp add: mask_first_byte_def clear_top_bits_def s slice_0_1 slice_from_1
          ord_byte_def chr_cls_def byte_and_mask_Suc)
  qed
qed

section \<open>MGF1\<close>

lemma hash_length_table_supported:
  "hash_length_table h = Some hl \<Longrightarrow> h \<in> set supported_hashes \<and> 20 \<le> hl \<and> hl \<le> 64"
  by (auto simp: hash_length_table_def supported_hashes_def split: if_splits)

lemma supported_has_length:
  "h \<in> set supported_hashes \<Longrightarrow> \<exists>hl. hash_length_table h = Some hl"
  by (auto simp: hash_length_table_def supported_hashes_def)

lemma pack_I_BE32: "c < 2 ^ 32 \<Longrightarrow> pack_I c = Inr (BE32 c)"
  by (simp add: pack_I_def BE32_def)

lemma mgf1_loop_ok:
  "\<forall>c\<in>set cs. c < 2 ^ 32 \<Longrightarrow>
   mgf1_loop hf seed cs out = Inr (out @ concat (map (\<lambda>c. hf (seed @ BE32 c)) cs))"
  by (induction cs arbitrary: out) (simp_all add: pack_I_BE32)

lemma mgf1_loop_fail:
  "c \<in> set cs \<Longrightarrow> 2 ^ 32 \<le> c \<Longrightarrow> mgf1_loop hf seed cs out = Inl StructError"
proof (induction cs arbitrary: out)
  case Nil
  then show ?case by simp
next
  case (Cons c' cs)
  show ?case
  proof (cases "c' < 2 ^ 32")
    case True
    with Cons.prems have "c \<in> set cs" by auto
    with True Cons show ?thesis by (simp add: pack_I_BE32)
  next
    case False
    then show ?thesis by (simp add: pack_I_def)
  qed
qed

lemma ceil_div_le:
  fixes n hl :: int
  assumes "0 < hl" "n \<le> c * hl"
  shows "(n + hl - 1) div hl \<le> c"
proof -
  have "(n + hl - 1) div hl \<le> (c * hl + (hl - 1)) div hl"
    using assms by (intro zdiv_mono1) simp_all
  also have "\<dots> = c"
    using assms(1) by (simp add: div_pos_pos_trivial)
  finally show ?thesis .
qed

lemma ceil_div_ge:
  fixes n hl :: int
  assumes "0 < hl"
  shows "n \<le> ((n + hl - 1) div hl) * hl"
proof -
  have "n + hl - 1 = ((n + hl - 1) div hl) * hl + (n + hl - 1) mod hl" by simp
  moreover have "(n + hl - 1) mod hl < hl" using assms by simp
  ultimately show ?thesis by linarith
qed

lemma mgf1_value:
  assumes h: "hash_length_table h = Some hl" and n: "1 \<le> n" "n \<le> 2 ^ 32 * hl"
  shows "mgf1 hashlib h seed n =
           Inr (take (nat n) (mgf1_blocks hashlib h seed (nat ((n + hl - 1) div hl))))"
proof -
  from h have sup: "h \<in> set supported_hashes" and hl: "20 \<le> hl" "hl \<le> 64"
    using hash_length_table_supported by blast+
  have "n \<le> 2 ^ 32 * 64" using n(2) hl(2) by simp
  then have "n < 2 ^ 46" by simp
  then have ceil: "ceil_truediv n hl = Inr ((n + hl - 1) div hl)"
    using n(1) hl by (intro ceil_truediv_exact) simp_all
  have "(n + hl - 1) div hl \<le> 2 ^ 32"
    using n(2) hl(1) by (intro ceil_div_le) simp_all
  then have small: "\<forall>c\<in>set [0..<nat ((n + hl - 1) div hl)]. c < 2 ^ 32"
    by (auto simp: nat_less_iff)
  show ?thesis
    using n(1) sup
    by (simp add: mgf1_def h ceil mgf1_loop_ok [OF small] mgf1_blocks_def slice_nonneg)
qed

lemma mgf1_blocks_length:
  assumes "\<And>x. length (hashlib h x) = L"
  shows "length (mgf1_blocks hashlib h seed k) = k * L"
  using assms by (induction k) (simp_all add: mgf1_blocks_def)

lemma mgf1_blocks_take:
  assumes "\<And>x. length (hashlib h x) = L" "k \<le> k'" "n \<le> k * L"
  shows "take n (mgf1_blocks hashlib h seed k') = take n (mgf1_blocks hashlib h seed k)"
proof -
  have "[0..<k'] = [0..<k] @ [k..<k']"
    using assms(2) by (metis le_add_diff_inverse upt_add_eq_append zero_le)
  then have "mgf1_blocks hashlib h seed k' =
      mgf1_blocks hashlib h seed k @ concat (map (\<lambda>c. hashlib h (seed @ BE32 c)) [k..<k'])"
    by (simp add: mgf1_blocks_def)
  then show ?thesis
    using assms(3) mgf1_blocks_length [of hashlib h L seed k, OF assms(1)] by simp
qed

lemma mgf1_length:
  assumes h: "hash_length_table h = Some hl" and n: "1 \<le> n" "n \<le> 2 ^ 32 * hl"
    and len: "\<And>x. int (length (hashlib h x)) = hl"
  shows "\<exists>mask. mgf1 hashlib h seed n = Inr mask \<and> length mask = nat n"
proof -
  from h have hl: "20 \<le> hl" using hash_length_table_supported by blast
  have L: "\<And>x. length (hashlib h x) = nat hl" using len by (metis nat_int)
  have "n \<le> ((n + hl - 1) div hl) * hl" using hl by (intro ceil_div_ge) simp
  then have "nat n \<le> nat (((n + hl - 1) div hl) * hl)" by simp
  also have "\<dots> = nat ((n + hl - 1) div hl) * nat hl"
    using hl n by (simp add: nat_mult_distrib pos_imp_zdiv_nonneg_iff)
  finally have "nat n \<le> length (mgf1_blocks hashlib h seed (nat ((n + hl - 1) div hl)))"
    by (simp add: mgf1_blocks_length [of hashlib h "nat hl", OF L])
  then show ?thesis
    by (simp add: mgf1_value [OF h n])
qed

lemma toy_hashlib_length:
  "hash_length_table name = Some n \<Longrightarrow> int (length (toy_hashlib name data)) = n"
  using hash_length_table_supported [of name n]
  by (simp add: toy_hashlib_def toy_digest_def)

lemma sha1_length: "hash_length_table ''sha1'' = Some 20"
  by (simp add: hash_length_table_def)

text \<open>
  Claim C6, amended. For a supported hash whose digests have the length of the table, a mask
  length \<open>n \<ge> 1\<close> and \<open>k > 0\<close> with \<open>n + k\<close> at most \<open>2 ^ 32\<close> digests: \<open>mgf1\<close> returns
  for \<open>n\<close> and for \<open>n + k\<close>, the mask for \<open>n\<close> has exactly \<open>n\<close> bytes, it is a prefix of the
  mask for \<open>n + k\<close>, and it is the leading \<open>n\<close> bytes of the concatenation of
  \<open>Hash(seed || BE32(counter))\<close> for the counters below the ceiling of \<open>n / hash_length\<close>.
\<close>

theorem mgf1_prefix_bounded:
  assumes h: "hash_length_table hash_algorithm = Some hash_length"
    and len: "\<And>data. int (length (hashlib hash_algorithm data)) = hash_length"
    and n: "1 \<le> n" "0 < k" "n + k \<le> 2 ^ 32 * hash_length"
  shows "\<exists>short long.
           mgf1 hashlib hash_algorithm seed n = Inr short
         \<and> mgf1 hashlib hash_algorithm seed (n + k) = Inr long
         \<and> length short = nat n
         \<and> prefix short long
         \<and> short = take (nat n)
                     (mgf1_blocks hashlib hash_algorithm seed
                        (nat ((n + hash_length - 1) div hash_length)))"
proof -
  from h have hl: "20 \<le> hash_length" using hash_length_table_supported by blast
  have L: "\<And>x. length (hashlib hash_algorithm x) = nat hash_length"
    using len by (metis nat_int)
  let ?c = "\<lambda>m. nat ((m + hash_length - 1) div hash_length)"
  let ?B = "mgf1_blocks hashlib hash_algorithm seed"
  have n1: "n \<le> 2 ^ 32 * hash_length" and nk1: "1 \<le> n + k"
    using n by simp_all
  have short: "mgf1 hashlib hash_algorithm seed n = Inr (take (nat n) (?B (?c n)))"
    using h n(1) n1 by (rule mgf1_value)
  have long: "mgf1 hashlib hash_algorithm seed (n + k) = Inr (take (nat (n + k)) (?B (?c (n + k))))"
    using h nk1 n(3) by (rule mgf1_value)
  obtain mask where "mgf1 hashlib hash_algorithm seed n = Inr mask" "length mask = nat n"
    using mgf1_length [where hashlib = hashlib and h = hash_algorithm and hl = hash_length
        and n = n and seed = seed] h n(1) n1 len
    by blast
  then have slen: "length (take (nat n) (?B (?c n))) = nat n"
    using short by simp
  have mono: "?c n \<le> ?c (n + k)"
    using n(2) hl by (intro nat_mono zdiv_mono1) simp_all
  have "n \<le> ((n + hash_length - 1) div hash_length) * hash_length"
    using hl by (intro ceil_div_ge) simp
  then have "nat n \<le> nat (((n + hash_length - 1) div hash_length) * hash_length)" by simp
  also have "\<dots> = ?c n * nat hash_length"
    using hl n by (simp add: nat_mult_distrib pos_imp_zdiv_nonneg_iff)
  finally have cover: "nat n \<le> ?c n * nat hash_length" .
  have same: "take (nat n) (?B (?c (n + k))) = take (nat n) (?B (?c n))"
    using L mono cover by (rule mgf1_blocks_take)
  have "take (nat n) (take (nat (n + k)) (?B (?c (n + k)))) = take (nat n) (?B (?c n))"
    using n(1,2) by (simp add: same min_def)
  then have "prefix (take (nat n) (?B (?c n))) (take (nat (n + k)) (?B (?c (n + k))))"
    by (metis take_is_prefix)
  then show ?thesis
    using short long slen by simp
qed

theorem mgf1_prefix_bounded_witness:
  "\<exists>short long.
     mgf1 toy_hashlib ''sha1'' [1, 2, 3] 43 = Inr short
   \<and> mgf1 toy_hashlib ''sha1'' [1, 2, 3] (43 + 21) = Inr long
   \<and> length short = nat 43
   \<and> prefix short long
   \<and> short = take (nat 43) (mgf1_blocks toy_hashlib ''sha1'' [1, 2, 3] (nat ((43 + 20 - 1) div 20)))"
  using mgf1_prefix_bounded [where hashlib = toy_hashlib and hash_algorithm = "''sha1''"
      and hash_length = 20 and n = 43 and k = 21 and seed = "[1, 2, 3]"]
    sha1_length toy_hashlib_length [OF sha1_length]
  by simp

text \<open>
  Claim C6 as stated, for every mask length from 1 on, fails: a SHA-1 mask of
  \<open>2 ^ 32 * 20 + 1\<close> bytes needs the counter \<open>2 ^ 32\<close>, which \<open>struct.Struct(b'>I').pack\<close>
  refuses, so \<open>mgf1\<close> raises instead of returning \<open>n\<close> bytes.
\<close>

theorem mgf1_mask_too_long:
  "mgf1 toy_hashlib ''sha1'' [] 85899345921 = Inl StructError"
proof -
  have "ceil_truediv 85899345921 20 = Inr ((85899345921 + 20 - 1) div 20)"
    by (rule ceil_truediv_exact) simp_all
  then have ceil: "ceil_truediv 85899345921 20 = Inr 4294967297" by simp
  have "mgf1_loop (toy_hashlib ''sha1'') [] [0..<4294967297] [] = Inl StructError"
    by (rule mgf1_loop_fail [of 4294967296]) simp_all
  then show ?thesis
    by (simp add: mgf1_def supported_hashes_def sha1_length ceil)
qed

section \<open>EMSA-PSS encoding\<close>

lemma em_len_exact:
  assumes "512 \<le> k" "k \<le> 2 ^ 45"
  shows "ceil_truediv (k - 1) 8 = Inr ((k + 6) div 8)"
proof -
  have "ceil_truediv (k - 1) 8 = Inr ((k - 1 + 8 - 1) div 8)"
    using assms by (intro ceil_truediv_exact) simp_all
  then show ?thesis by (simp add: algebra_simps)
qed

lemma zero_bits_range:
  fixes k :: int
  shows "0 \<le> 8 * ((k + 6) div 8) - (k - 1) \<and> 8 * ((k + 6) div 8) - (k - 1) \<le> 7"
  by presburger

lemma em_len_lower: "512 \<le> k \<Longrightarrow> 64 \<le> (k + 6) div (8::int)"
  by presburger

lemma em_len_upper: "(k + 6) div (8::int) \<le> k div 8 + 1"
  by presburger

lemma clear_top_bits_length: "length (clear_top_bits z s) = length s"
  by (cases s) (simp_all add: clear_top_bits_def)

lemma clear_top_bits_hd:
  "s \<noteq> [] \<Longrightarrow> hd (clear_top_bits z s) = take_bit (nat (8 - z)) (hd s)"
  by (cases s) (simp_all add: clear_top_bits_def)

lemma clear_top_bits_tl: "tl (clear_top_bits z s) = tl s"
  by (cases s) (simp_all add: clear_top_bits_def)

lemma xor_bytes_length: "length (xor_bytes a b) = min (length a) (length b)"
  by (simp add: xor_bytes_def)

lemma mask_first_byte_value_Suc:
  assumes "s \<noteq> []" "0 \<le> zero_bits" "zero_bits \<le> 8"
  shows "mask_first_byte (2 ^ nat (8 - zero_bits) - Suc 0) s = Inr (clear_top_bits zero_bits s)"
  using mask_first_byte_value [OF assms] by simp

lemma add_pss_padding_value:
  assumes h: "hash_length_table h = Some hl"
    and len: "\<And>x. int (length (hashlib h x)) = hl"
    and k: "512 \<le> k" "(k + 6) div 8 - hl - 1 \<le> 2 ^ 32 * hl"
    and s: "0 \<le> s" "hl + s + 2 \<le> (k + 6) div 8"
    and salt: "salt = (if 0 < s then urandom s else [])" "int (length salt) = s"
  shows "\<exists>mask. mgf1 hashlib h (hashlib h (bytes_times 0 8 @ hashlib h m @ salt))
                  ((k + 6) div 8 - hl - 1) = Inr mask
           \<and> int (length mask) = (k + 6) div 8 - hl - 1
           \<and> add_pss_padding hashlib urandom h s k m =
               Inr (clear_top_bits (8 * ((k + 6) div 8) - (k - 1))
                      (xor_bytes (bytes_times 0 ((k + 6) div 8 - s - hl - 2) @ [1] @ salt) mask)
                    @ hashlib h (bytes_times 0 8 @ hashlib h m @ salt) @ [0xBC])"
proof -
  define E where "E = (k + 6) div 8"
  define H' where "H' = hashlib h (bytes_times 0 8 @ hashlib h m @ salt)"
  define db where "db = bytes_times 0 (E - s - hl - 2) @ [1] @ salt"
  define zb where "zb = 8 * E - (k - 1)"
  from h have sup: "h \<in> set supported_hashes" and hl: "20 \<le> hl" "hl \<le> 64"
    using hash_length_table_supported by blast+
  have "E \<le> 2 ^ 32 * 64 + 65" using k(2) hl by (simp add: E_def)
  moreover have "k \<le> 8 * E + 2" unfolding E_def by presburger
  ultimately have kb: "k \<le> 2 ^ 45" by simp
  have ceil: "ceil_truediv (k - 1) 8 = Inr E"
    unfolding E_def using k(1) kb by (rule em_len_exact)
  have n1: "1 \<le> E - hl - 1" using s by (simp add: E_def)
  obtain mask where mask: "mgf1 hashlib h H' (E - hl - 1) = Inr mask"
    and mlen: "length mask = nat (E - hl - 1)"
    using mgf1_length [where hashlib = hashlib and h = h and hl = hl and n = "E - hl - 1"
        and seed = H'] h n1 k(2) len
    by (auto simp: E_def)
  have dblen: "length db = length mask"
    using s salt(2) mlen by (simp add: db_def bytes_times_def E_def nat_add_distrib nat_diff_distrib) linarith
  have zbr: "0 \<le> zb" "zb \<le> 8" using zero_bits_range [of k] by (simp_all add: zb_def E_def)
  have ne: "xor_bytes db mask \<noteq> []"
    using dblen mlen n1 by (auto simp: xor_bytes_def)
  have masked: "fill_width (int_to_bytes (int_from_bytes db XOR int_from_bytes mask)) (length mask)
                  = xor_bytes db mask"
    using xor_repad [OF dblen] by (simp add: xor_bytes_def)
  have feas: "\<not> E < hl + s + 2" using s by (simp add: E_def)
  have "add_pss_padding hashlib urandom h s k m =
          Inr (clear_top_bits zb (xor_bytes db mask) @ H' @ [0xBC])"
    unfolding add_pss_padding_def Let_def ceil sum.case len
    unfolding salt(1) [symmetric] H'_def [symmetric]
    unfolding db_def [symmetric] zb_def [symmetric]
    using s(1) k(1) sup feas
    by (simp add: mask masked left_int_mask_value mask_first_byte_value_Suc [OF ne zbr])
  then show ?thesis
    using mask mlen n1 by (auto simp: E_def H'_def db_def zb_def)
qed

lemma toy_urandom_length: "0 \<le> n \<Longrightarrow> int (length (toy_urandom n)) = n"
  by (simp add: toy_urandom_def)

lemma sha256_length: "hash_length_table ''sha256'' = Some 32"
  by (simp add: hash_length_table_def)

text \<open>
  Claim C4. For a supported hash whose digests have the length of the table, a key length of
  512, 1024, 2048 or 4096 bits, a salt length from 0 on with
  \<open>hash_length + salt_length + 2\<close> at most \<open>em_len\<close>, the ceiling of
  \<open>(key_length - 1) / 8\<close>, and a randomness source that returns as many bytes as it is asked
  for: \<open>add_pss_padding\<close> returns a byte string of exactly \<open>em_len\<close> bytes, whose last byte
  is \<open>0xBC\<close> and whose first byte has its top \<open>8 * em_len - (key_length - 1)\<close> bits zero.
\<close>

theorem add_pss_padding_shape:
  assumes h: "hash_length_table hash_algorithm = Some hash_length"
    and len: "\<And>data. int (length (hashlib hash_algorithm data)) = hash_length"
    and k: "key_length \<in> {512, 1024, 2048, 4096}"
    and s: "0 \<le> salt_length" "hash_length + salt_length + 2 \<le> (key_length - 1 + 7) div 8"
    and rnd: "0 < salt_length \<Longrightarrow> int (length (urandom salt_length)) = salt_length"
  shows "\<exists>em. add_pss_padding hashlib urandom hash_algorithm salt_length key_length message = Inr em
          \<and> int (length em) = (key_length - 1 + 7) div 8
          \<and> last em = 0xBC
          \<and> drop_bit (nat (8 - (8 * ((key_length - 1 + 7) div 8) - (key_length - 1)))) (hd em) = 0"
proof -
  define salt where "salt = (if 0 < salt_length then urandom salt_length else [])"
  let ?E = "(key_length + 6) div 8"
  let ?zb = "8 * ?E - (key_length - 1)"
  let ?H = "hashlib hash_algorithm (bytes_times 0 8 @ hashlib hash_algorithm message @ salt)"
  let ?db = "bytes_times 0 (?E - salt_length - hash_length - 2) @ [1] @ salt"
  from h have hl: "20 \<le> hash_length" using hash_length_table_supported by blast
  have slen: "int (length salt) = salt_length"
    using s(1) rnd by (auto simp: salt_def)
  have k1: "512 \<le> key_length" and k2: "?E \<le> 512" using k by auto
  have k3: "?E - hash_length - 1 \<le> 2 ^ 32 * hash_length" using k2 hl by simp
  have s2: "hash_length + salt_length + 2 \<le> ?E" using s(2) by simp
  have "\<exists>mask. mgf1 hashlib hash_algorithm ?H (?E - hash_length - 1) = Inr mask
           \<and> int (length mask) = ?E - hash_length - 1
           \<and> add_pss_padding hashlib urandom hash_algorithm salt_length key_length message =
               Inr (clear_top_bits ?zb (xor_bytes ?db mask) @ ?H @ [0xBC])"
    using h len k1 k3 s(1) s2 salt_def slen by (rule add_pss_padding_value)
  then obtain mask where mlen: "int (length mask) = ?E - hash_length - 1"
    and em: "add_pss_padding hashlib urandom hash_algorithm salt_length key_length message =
               Inr (clear_top_bits ?zb (xor_bytes ?db mask) @ ?H @ [0xBC])"
    by blast
  let ?X = "xor_bytes ?db mask"
  have dblen: "int (length ?db) = ?E - hash_length - 1"
    using s(1) s2 slen by (simp add: bytes_times_def)
  have Xlen: "int (length ?X) = ?E - hash_length - 1"
    using dblen mlen by (simp add: xor_bytes_length)
  then have Xne: "?X \<noteq> []" using s2 s(1) by auto
  have cne: "clear_top_bits ?zb ?X \<noteq> []"
    using Xne clear_top_bits_length [of ?zb ?X] by (metis length_0_conv)
  have 1: "int (length (clear_top_bits ?zb ?X @ ?H @ [0xBC])) = ?E"
    using Xlen len [of "bytes_times 0 8 @ hashlib hash_algorithm message @ salt"]
    by (simp add: clear_top_bits_length)
  have "hd (clear_top_bits ?zb ?X @ ?H @ [0xBC]) = hd (clear_top_bits ?zb ?X)"
    using cne by (rule hd_append2)
  then have 2: "hd (clear_top_bits ?zb ?X @ ?H @ [0xBC]) = take_bit (nat (8 - ?zb)) (hd ?X)"
    using clear_top_bits_hd [OF Xne, of ?zb] by simp
  have 3: "last (clear_top_bits ?zb ?X @ ?H @ [0xBC]) = 0xBC" by simp
  have 4: "drop_bit (nat (8 - ?zb)) (take_bit (nat (8 - ?zb)) (hd ?X)) = 0"
    by (simp add: drop_bit_take_bit)
  have e: "(key_length - 1 + 7) div 8 = ?E" by simp
  show ?thesis
    unfolding e
  proof (intro exI conjI)
    show "add_pss_padding hashlib urandom hash_algorithm salt_length key_length message =
            Inr (clear_top_bits ?zb ?X @ ?H @ [0xBC])"
      by (rule em)
    show "int (length (clear_top_bits ?zb ?X @ ?H @ [0xBC])) = ?E" by (rule 1)
    show "last (clear_top_bits ?zb ?X @ ?H @ [0xBC]) = 0xBC" by (rule 3)
    show "drop_bit (nat (8 - ?zb)) (hd (clear_top_bits ?zb ?X @ ?H @ [0xBC])) = 0"
      unfolding 2 by (rule 4)
  qed
qed

theorem add_pss_padding_shape_witness:
  "\<exists>em. add_pss_padding toy_hashlib toy_urandom ''sha256'' 39 1024 [1, 2, 3] = Inr em
      \<and> int (length em) = 128 \<and> last em = 0xBC \<and> drop_bit 7 (hd em) = 0"
  using add_pss_padding_shape [where hashlib = toy_hashlib and hash_algorithm = "''sha256''"
      and hash_length = 32 and key_length = 1024 and salt_length = 39 and urandom = toy_urandom
      and message = "[1, 2, 3]"]
    sha256_length toy_hashlib_length [OF sha256_length] toy_urandom_length [of 39]
  by simp

section \<open>EMSA-PSS verification\<close>

lemma pad_is_fill_width:
  "(if length d < L then bytes_times 0 (int L - int (length d)) @ d else d) = fill_width d L"
  by (simp add: fill_width_def bytes_times_def nat_diff_distrib')

lemma recover_db_total:
  assumes h: "hash_length_table h = Some hl"
    and len: "\<And>x. int (length (hashlib h x)) = hl"
    and n: "1 \<le> E - hl - 1" "E - hl - 1 \<le> 2 ^ 32 * hl"
    and zb: "0 \<le> zb" "zb \<le> 8"
  shows "\<exists>mask. mgf1 hashlib h seed (E - hl - 1) = Inr mask
           \<and> length mask = nat (E - hl - 1)
           \<and> recover_db hashlib h E hl zb masked_db seed =
               Inr (fill_width
                      (int_to_bytes (int_from_bytes masked_db
                                       XOR int_from_bytes (clear_top_bits zb mask)))
                      (length masked_db))"
proof -
  obtain mask where mask: "mgf1 hashlib h seed (E - hl - 1) = Inr mask"
    and mlen: "length mask = nat (E - hl - 1)"
    using mgf1_length [where hashlib = hashlib and h = h and hl = hl and n = "E - hl - 1"
        and seed = seed] h n len
    by auto
  have ne: "mask \<noteq> []" using mlen n(1) by auto
  have "recover_db hashlib h E hl zb masked_db seed =
          Inr (fill_width
                 (int_to_bytes (int_from_bytes masked_db
                                  XOR int_from_bytes (clear_top_bits zb mask)))
                 (length masked_db))"
    unfolding recover_db_def Let_def mask sum.case left_int_mask_value
      mask_first_byte_value [OF ne zb] pad_is_fill_width
    by (rule refl)
  with mask mlen show ?thesis by simp
qed

lemma recover_db_value:
  assumes h: "hash_length_table h = Some hl"
    and len: "\<And>x. int (length (hashlib h x)) = hl"
    and n: "1 \<le> E - hl - 1" "E - hl - 1 \<le> 2 ^ 32 * hl"
    and zb: "0 \<le> zb" "zb \<le> 8"
    and m: "length masked_db = nat (E - hl - 1)"
  shows "\<exists>mask. mgf1 hashlib h seed (E - hl - 1) = Inr mask
           \<and> length mask = nat (E - hl - 1)
           \<and> recover_db hashlib h E hl zb masked_db seed =
               Inr (xor_bytes masked_db (clear_top_bits zb mask))"
proof -
  have "\<exists>mask. mgf1 hashlib h seed (E - hl - 1) = Inr mask
           \<and> length mask = nat (E - hl - 1)
           \<and> recover_db hashlib h E hl zb masked_db seed =
               Inr (fill_width
                      (int_to_bytes (int_from_bytes masked_db
                                       XOR int_from_bytes (clear_top_bits zb mask)))
                      (length masked_db))"
    using h len n zb by (rule recover_db_total)
  then obtain mask where mask: "mgf1 hashlib h seed (E - hl - 1) = Inr mask"
    and mlen: "length mask = nat (E - hl - 1)"
    and db: "recover_db hashlib h E hl zb masked_db seed =
               Inr (fill_width
                      (int_to_bytes (int_from_bytes masked_db
                                       XOR int_from_bytes (clear_top_bits zb mask)))
                      (length masked_db))"
    by auto
  have eq: "length masked_db = length (clear_top_bits zb mask)"
    using m mlen by (simp add: clear_top_bits_length)
  have "fill_width
          (int_to_bytes (int_from_bytes masked_db XOR int_from_bytes (clear_top_bits zb mask)))
          (length (clear_top_bits zb mask))
        = xor_bytes masked_db (clear_top_bits zb mask)"
    using xor_repad [OF eq] by (simp add: xor_bytes_def)
  then show ?thesis
    using mask mlen db eq by simp
qed


lemma slice_from_last_snoc: "slice_from (s @ [b]) (- 1) = [b]"
  by (simp add: slice_from_def)


lemma hd_slice_0: "s \<noteq> [] \<Longrightarrow> 1 \<le> n \<Longrightarrow> hd (slice s 0 n) = hd s"
  by (cases s) (auto simp: slice_nonneg nat_le_iff take_Suc_conv_app_nth dest!: Suc_le_D)





section \<open>A trailer byte appended to an accepted signature\<close>

lemma slice_append_left:
  "0 \<le> a \<Longrightarrow> 0 \<le> b \<Longrightarrow> b \<le> int (length xs) \<Longrightarrow> slice (xs @ ys) a b = slice xs a b"
  by (simp add: slice_nonneg)

lemma slice_length_full:
  assumes "0 \<le> a" "0 < n" "int (length (slice xs a (a + n))) = n"
  shows "a + n \<le> int (length xs)"
proof -
  have "length (slice xs a (a + n)) = min (nat n) (length xs - nat a)"
    using assms(1,2) by (simp add: slice_nonneg nat_add_distrib)
  with assms show ?thesis by (auto simp: min_def split: if_splits)
qed

text \<open>
  Claim C9. \<open>verify_pss_padding\<close> reads the signature only through slices taken from its
  front and through its last byte: when it accepts a signature, it accepts that signature
  followed by one more byte \<open>0xBC\<close> too. No step compares the length of the signature with
  \<open>em_len\<close>.
\<close>

theorem verify_pss_padding_ignores_appended_trailer:
  assumes h: "hash_length_table hash_algorithm = Some hash_length"
    and len: "\<And>data. int (length (hashlib hash_algorithm data)) = hash_length"
    and v: "verify_pss_padding hashlib hash_algorithm salt_length key_length message em = Inr True"
  shows "verify_pss_padding hashlib hash_algorithm salt_length key_length message (em @ [0xBC])
           = Inr True"
proof -
  from h have hl: "20 \<le> hash_length" using hash_length_table_supported by blast
  obtain E where ceil: "ceil_truediv (key_length - 1) 8 = Inr E"
    using v unfolding verify_pss_padding_def Let_def
    by (cases "ceil_truediv (key_length - 1) 8") (auto split: if_splits)
  have feas: "\<not> E < hash_length + salt_length + 2" and s: "0 \<le> salt_length"
    and trailer: "slice_from em (- 1) = [0xBC]"
    using v unfolding verify_pss_padding_def Let_def ceil sum.case len
    by (auto split: if_splits)
  have "\<exists>x. slice em (E - hash_length - 1) (E - hash_length - 1 + hash_length)
              = hashlib hash_algorithm x"
    using v unfolding verify_pss_padding_def Let_def ceil sum.case len
    by (auto simp: constant_compare_eq split: if_splits sum.splits)
  then have "int (length (slice em (E - hash_length - 1) (E - hash_length - 1 + hash_length)))
               = hash_length"
    using len by auto
  then have long: "E - hash_length - 1 + hash_length \<le> int (length em)"
    using feas s hl by (intro slice_length_full) simp_all
  have e1: "slice (em @ [0xBC]) 0 (E - hash_length - 1) = slice em 0 (E - hash_length - 1)"
    using long hl feas s by (intro slice_append_left) simp_all
  have e2: "slice (em @ [0xBC]) (E - hash_length - 1) (E - hash_length - 1 + hash_length)
              = slice em (E - hash_length - 1) (E - hash_length - 1 + hash_length)"
    using long hl feas s by (intro slice_append_left) simp_all
  have e3: "slice_from (em @ [0xBC]) (- 1) = slice_from em (- 1)"
    by (simp add: trailer slice_from_last_snoc)
  have "verify_pss_padding hashlib hash_algorithm salt_length key_length message (em @ [0xBC])
          = verify_pss_padding hashlib hash_algorithm salt_length key_length message em"
    unfolding verify_pss_padding_def Let_def ceil sum.case len e1 e2 e3
    by (rule refl)
  with v show ?thesis by simp
qed

section \<open>Unmasking what the encoder has masked\<close>

lemma xor_bytes_cancel:
  "length a = length m \<Longrightarrow> xor_bytes (xor_bytes a m) m = a"
proof (induction a m rule: list_induct2)
  case Nil
  show ?case by (simp add: xor_bytes_def)
next
  case (Cons x xs y ys)
  have "(x XOR y) XOR y = x" by (simp add: xor.assoc)
  with Cons show ?case by (simp add: xor_bytes_def)
qed

lemma xor_clear:
  assumes "length a = length m"
  shows "xor_bytes (clear_top_bits z (xor_bytes a m)) (clear_top_bits z m) = clear_top_bits z a"
proof (cases a)
  case Nil
  with assms show ?thesis by (simp add: xor_bytes_def clear_top_bits_def)
next
  case (Cons x xs)
  with assms obtain y ys where m: "m = y # ys" and l: "length xs = length ys"
    by (cases m) auto
  have "take_bit (nat (8 - z)) (x XOR y) XOR take_bit (nat (8 - z)) y = take_bit (nat (8 - z)) x"
    by (simp add: xor.assoc)
  moreover have "map2 (XOR) (map2 (XOR) xs ys) ys = xs"
    using xor_bytes_cancel [OF l] by (simp add: xor_bytes_def)
  ultimately show ?thesis
    by (simp add: Cons m xor_bytes_def clear_top_bits_def)
qed

lemma clear_top_bits_db:
  assumes "z \<le> 7"
  shows "clear_top_bits z (bytes_times 0 n @ [1] @ salt) = bytes_times 0 n @ [1] @ salt"
proof -
  obtain j where j: "nat (8 - z) = Suc j" using assms by (cases "nat (8 - z)") auto
  show ?thesis
  proof (cases "nat n")
    case 0
    then show ?thesis by (simp add: clear_top_bits_def bytes_times_def j)
  next
    case (Suc i)
    then show ?thesis by (simp add: clear_top_bits_def bytes_times_def)
  qed
qed

lemma shift_right_cleared:
  assumes "0 \<le> 8 - z"
  shows "shift_right (unat (take_bit (nat (8 - z)) (b :: byte))) (8 - z) = Inr 0"
proof -
  have "unat (take_bit (nat (8 - z)) b) = take_bit (nat (8 - z)) (unat b)"
    by (simp add: unsigned_take_bit_eq)
  then have "drop_bit (nat (8 - z)) (unat (take_bit (nat (8 - z)) b)) = 0"
    by (simp add: drop_bit_take_bit)
  then show ?thesis using assms by (simp add: shift_right_def)
qed

lemma slice_db_zeros:
  "0 \<le> n \<Longrightarrow> slice (bytes_times 0 n @ [1] @ salt) 0 n = bytes_times 0 n"
  by (simp add: slice_nonneg bytes_times_def)

lemma slice_db_one:
  "0 \<le> n \<Longrightarrow> slice (bytes_times 0 n @ [1] @ salt) n (n + 1) = [1]"
  by (simp add: slice_nonneg bytes_times_def nat_add_distrib)

lemma slice_from_db_salt:
  assumes "0 \<le> n" "int (length salt) = s"
  shows "slice_from (bytes_times 0 n @ [1] @ salt) (0 - s)
           = (if 0 < s then salt else bytes_times 0 n @ [1] @ salt)"
  using assms by (auto simp: slice_from_def bytes_times_def Let_def nat_add_distrib)

lemma slice_parts:
  assumes "int (length X) = a" "int (length H) = b"
  shows "slice (X @ H @ [t]) 0 a = X"
    and "slice (X @ H @ [t]) a (a + b) = H"
    and "slice_from (X @ H @ [t]) (- 1) = [t]"
  using assms by (auto simp: slice_nonneg slice_from_def nat_add_distrib)

text \<open>
  What \<open>verify_pss_padding\<close> returns on the output of \<open>add_pss_padding\<close>. Every check before
  the last passes, and the result is the comparison of two digests: the one the encoder
  made from the salt, and the one the verifier makes from \<open>db[0 - salt_length:]\<close>. For a
  salt length of 0 that slice is \<open>db[0:]\<close>, the whole data block.
\<close>

lemma round_trip_value:
  assumes h: "hash_length_table h = Some hl"
    and len: "\<And>x. int (length (hashlib h x)) = hl"
    and k: "512 \<le> k" "(k + 6) div 8 - hl - 1 \<le> 2 ^ 32 * hl"
    and s: "0 \<le> s" "hl + s + 2 \<le> (k + 6) div 8"
    and salt: "salt = (if 0 < s then urandom s else [])" "int (length salt) = s"
  shows "\<exists>em. add_pss_padding hashlib urandom h s k m = Inr em
           \<and> verify_pss_padding hashlib h s k m em =
               Inr (hashlib h (bytes_times 0 8 @ hashlib h m @ salt)
                    = hashlib h (bytes_times 0 8 @ hashlib h m
                         @ (if 0 < s then salt
                            else bytes_times 0 ((k + 6) div 8 - s - hl - 2) @ [1] @ salt)))"
proof -
  define E where "E = (k + 6) div 8"
  define zb where "zb = 8 * E - (k - 1)"
  define H' where "H' = hashlib h (bytes_times 0 8 @ hashlib h m @ salt)"
  define db where "db = bytes_times 0 (E - s - hl - 2) @ [1] @ salt"
  from h have sup: "h \<in> set supported_hashes" and hl: "20 \<le> hl" "hl \<le> 64"
    using hash_length_table_supported by blast+
  have k2: "E - hl - 1 \<le> 2 ^ 32 * hl" using k(2) by (simp add: E_def)
  then have "E \<le> 2 ^ 32 * 64 + 65" using hl by simp
  moreover have "k \<le> 8 * E + 2" unfolding E_def by presburger
  ultimately have kb: "k \<le> 2 ^ 45" by simp
  have ceil: "ceil_truediv (k - 1) 8 = Inr E"
    unfolding E_def using k(1) kb by (rule em_len_exact)
  have zbr: "0 \<le> zb" "zb \<le> 8" "zb \<le> 7" "0 \<le> 8 - zb"
    using zero_bits_range [of k] by (simp_all add: zb_def E_def)
  have feas: "\<not> E < hl + s + 2" and n1: "1 \<le> E - hl - 1" and zl0: "0 \<le> E - s - hl - 2"
    using s by (simp_all add: E_def)
  have zl: "E - hl - s - 2 = E - s - hl - 2" by simp
  have "\<exists>mask. mgf1 hashlib h H' (E - hl - 1) = Inr mask
           \<and> int (length mask) = E - hl - 1
           \<and> add_pss_padding hashlib urandom h s k m =
               Inr (clear_top_bits zb (xor_bytes db mask) @ H' @ [0xBC])"
    unfolding db_def zb_def H'_def E_def
    using h len k s salt by (rule add_pss_padding_value)
  then obtain mask where mask: "mgf1 hashlib h H' (E - hl - 1) = Inr mask"
    and mlen: "int (length mask) = E - hl - 1"
    and em: "add_pss_padding hashlib urandom h s k m =
               Inr (clear_top_bits zb (xor_bytes db mask) @ H' @ [0xBC])"
    by auto
  define X where "X = clear_top_bits zb (xor_bytes db mask)"
  have dblen: "length db = length mask"
    using mlen zl0 salt(2) s(1) by (simp add: db_def bytes_times_def)
  have Xlen: "int (length X) = E - hl - 1"
    using dblen mlen by (simp add: X_def clear_top_bits_length xor_bytes_length)
  have Xlen': "length X = nat (E - hl - 1)" using Xlen by simp
  have Hlen: "int (length H') = hl" unfolding H'_def by (rule len)
  have Xne: "X \<noteq> []" using Xlen n1 by auto
  have xne: "xor_bytes db mask \<noteq> []"
    using Xne by (auto simp: X_def clear_top_bits_def)
  note sl = slice_parts [OF Xlen Hlen, of "0xBC"]
  have f1: "ord_byte (slice X 0 1) = Inr (unat (hd X))"
    using Xne by (simp add: slice_0_1 ord_byte_def)
  have hdX: "hd X = take_bit (nat (8 - zb)) (hd (xor_bytes db mask))"
    unfolding X_def using xne by (rule clear_top_bits_hd)
  have f2: "shift_right (unat (hd X)) (8 - zb) = Inr 0"
    unfolding hdX using zbr(4) by (rule shift_right_cleared)
  have "\<exists>mask. mgf1 hashlib h H' (E - hl - 1) = Inr mask
           \<and> length mask = nat (E - hl - 1)
           \<and> recover_db hashlib h E hl zb X H' = Inr (xor_bytes X (clear_top_bits zb mask))"
    using h len n1 k2 zbr(1,2) Xlen' by (rule recover_db_value)
  then have "recover_db hashlib h E hl zb X H' = Inr (xor_bytes X (clear_top_bits zb mask))"
    using mask by auto
  also have "xor_bytes X (clear_top_bits zb mask) = clear_top_bits zb db"
    unfolding X_def using dblen by (rule xor_clear)
  also have "\<dots> = db"
    unfolding db_def using zbr(3) by (rule clear_top_bits_db)
  finally have rec: "recover_db hashlib h E hl zb X H' = Inr db" .
  have f4: "slice db 0 (E - s - hl - 2) = bytes_times 0 (E - s - hl - 2)"
    unfolding db_def using zl0 by (rule slice_db_zeros)
  have f5: "slice db (E - s - hl - 2) (E - s - hl - 2 + 1) = [1]"
    unfolding db_def using zl0 by (rule slice_db_one)
  have f6: "slice_from db (0 - s) = (if 0 < s then salt else db)"
    unfolding db_def using zl0 salt(2) by (rule slice_from_db_salt)
  have "verify_pss_padding hashlib h s k m (X @ H' @ [0xBC]) =
          Inr (H' = hashlib h (bytes_times 0 8 @ hashlib h m @ (if 0 < s then salt else db)))"
    unfolding verify_pss_padding_def Let_def ceil sum.case len zb_def [symmetric]
    unfolding sl f1 f2 sum.case rec zl f4 f5 f6 constant_compare_eq
    using s(1) sup feas by simp
  then show ?thesis
    unfolding em X_def [symmetric]
    by (simp add: H'_def db_def E_def)
qed

section \<open>The round trip\<close>

text \<open>
  With a salt of at least one byte the slice \<open>db[0 - salt_length:]\<close> is the salt, and the
  round trip succeeds.
\<close>

lemma round_trip_with_salt:
  assumes h: "hash_length_table h = Some hl"
    and len: "\<And>x. int (length (hashlib h x)) = hl"
    and k: "512 \<le> k" "(k + 6) div 8 - hl - 1 \<le> 2 ^ 32 * hl"
    and s: "0 < s" "hl + s + 2 \<le> (k + 6) div 8"
    and rnd: "int (length (urandom s)) = s"
  shows "\<exists>em. add_pss_padding hashlib urandom h s k m = Inr em
           \<and> verify_pss_padding hashlib h s k m em = Inr True"
proof -
  define salt where "salt = (if 0 < s then urandom s else [])"
  have slen: "int (length salt) = s" using s(1) rnd by (simp add: salt_def)
  have s0: "0 \<le> s" using s(1) by simp
  have "\<exists>em. add_pss_padding hashlib urandom h s k m = Inr em
           \<and> verify_pss_padding hashlib h s k m em =
               Inr (hashlib h (bytes_times 0 8 @ hashlib h m @ salt)
                    = hashlib h (bytes_times 0 8 @ hashlib h m
                         @ (if 0 < s then salt
                            else bytes_times 0 ((k + 6) div 8 - s - hl - 2) @ [1] @ salt)))"
    using h len k s0 s(2) salt_def slen by (rule round_trip_value)
  then show ?thesis using s(1) by simp
qed

lemma toy_digest_hd:
  "0 < n \<Longrightarrow> hd (toy_digest n data) = of_nat (length data) + sum_list data + 128"
  by (simp add: toy_digest_def upt_conv_Cons)

lemma toy_sha1_differs:
  "toy_hashlib ''sha1'' (xs @ bytes_times 0 42 @ [1] @ []) \<noteq> toy_hashlib ''sha1'' xs"
proof
  assume "toy_hashlib ''sha1'' (xs @ bytes_times 0 42 @ [1] @ []) = toy_hashlib ''sha1'' xs"
  then have "hd (toy_digest 20 (xs @ bytes_times 0 42 @ [1] @ [])) = hd (toy_digest 20 xs)"
    by (simp add: toy_hashlib_def sha1_length)
  then have "(of_nat (length xs) + sum_list xs + 128 :: byte) + 44
               = of_nat (length xs) + sum_list xs + 128"
    by (simp add: toy_digest_hd bytes_times_def sum_list_replicate)
  then show False by simp
qed

text \<open>
  Claim C1, at the salt length 0. For SHA-1 digest lengths, a 512-bit key and the empty
  message, \<open>add_pss_padding\<close> returns an encoded message and \<open>verify_pss_padding\<close> rejects
  it: the verifier takes \<open>db[0 - 0:]\<close>, the whole data block of 42 zero bytes and the byte
  \<open>0x01\<close>, for the salt, where the encoder used the empty salt.
\<close>

theorem round_trip_fails_without_salt:
  "\<exists>em. add_pss_padding toy_hashlib toy_urandom ''sha1'' 0 512 [] = Inr em
      \<and> verify_pss_padding toy_hashlib ''sha1'' 0 512 [] em = Inr False"
  using round_trip_value [where hashlib = toy_hashlib and h = "''sha1''" and hl = 20
      and k = 512 and s = 0 and salt = "[]" and urandom = toy_urandom and m = "[]"]
    sha1_length toy_hashlib_length [OF sha1_length]
    toy_sha1_differs [of "bytes_times 0 8 @ toy_hashlib ''sha1'' []"]
  by simp

text \<open>
  The encoded message of a 512-bit key with a salt of 20 bytes, followed by one more
  trailer byte, is accepted.
\<close>

theorem verify_pss_padding_ignores_appended_trailer_witness:
  "\<exists>em. add_pss_padding toy_hashlib toy_urandom ''sha1'' 20 512 [1, 2, 3] = Inr em
      \<and> verify_pss_padding toy_hashlib ''sha1'' 20 512 [1, 2, 3] (em @ [0xBC]) = Inr True"
proof -
  have "\<exists>em. add_pss_padding toy_hashlib toy_urandom ''sha1'' 20 512 [1, 2, 3] = Inr em
           \<and> verify_pss_padding toy_hashlib ''sha1'' 20 512 [1, 2, 3] em = Inr True"
    using round_trip_with_salt [where hashlib = toy_hashlib and h = "''sha1''" and hl = 20
        and k = 512 and s = 20 and urandom = toy_urandom and m = "[1, 2, 3]"]
      sha1_length toy_hashlib_length [OF sha1_length] toy_urandom_length [of 20]
    by simp
  then obtain em where a: "add_pss_padding toy_hashlib toy_urandom ''sha1'' 20 512 [1, 2, 3] = Inr em"
    and v: "verify_pss_padding toy_hashlib ''sha1'' 20 512 [1, 2, 3] em = Inr True"
    by auto
  have "verify_pss_padding toy_hashlib ''sha1'' 20 512 [1, 2, 3] (em @ [0xBC]) = Inr True"
    using sha1_length toy_hashlib_length [OF sha1_length] v
    by (rule verify_pss_padding_ignores_appended_trailer)
  with a show ?thesis by simp
qed

section \<open>The data block recovered by the verifier\<close>

lemma length_slice_0: "0 \<le> n \<Longrightarrow> n \<le> int (length xs) \<Longrightarrow> length (slice xs 0 n) = nat n"
  by (simp add: slice_nonneg)

text \<open>
  Claim C2, amended. For a signature of at least \<open>em_len - hash_length - 1\<close> bytes, the data
  block that \<open>verify_pss_padding\<close> recovers is the byte-wise XOR of \<open>maskedDB\<close> with the
  MGF1 mask of \<open>H'\<close> after the top \<open>zero_bits\<close> bits of the first byte of the mask have
  been cleared (\<open>left_int_mask & ord(db_mask[0:1])\<close>).
\<close>

theorem verify_unmasks_with_cleared_mask:
  fixes key_length hash_length salt_length :: int
  defines "em_len \<equiv> (key_length - 1 + 7) div 8"
  defines "zero_bits \<equiv> 8 * em_len - (key_length - 1)"
  defines "masked_db_length \<equiv> em_len - hash_length - 1"
  assumes h: "hash_length_table hash_algorithm = Some hash_length"
    and len: "\<And>data. int (length (hashlib hash_algorithm data)) = hash_length"
    and k: "512 \<le> key_length" "masked_db_length \<le> 2 ^ 32 * hash_length"
    and s: "0 \<le> salt_length" "hash_length + salt_length + 2 \<le> em_len"
    and long: "masked_db_length \<le> int (length signature)"
  shows "\<exists>mask.
           mgf1 hashlib hash_algorithm
             (slice signature masked_db_length (masked_db_length + hash_length))
             masked_db_length = Inr mask
         \<and> recover_db hashlib hash_algorithm em_len hash_length zero_bits
             (slice signature 0 masked_db_length)
             (slice signature masked_db_length (masked_db_length + hash_length))
           = Inr (xor_bytes (slice signature 0 masked_db_length) (clear_top_bits zero_bits mask))"
proof -
  have n1: "1 \<le> em_len - hash_length - 1" using s by simp
  have n2: "em_len - hash_length - 1 \<le> 2 ^ 32 * hash_length"
    using k(2) by (simp add: masked_db_length_def)
  have zbr: "0 \<le> zero_bits" "zero_bits \<le> 8"
    using zero_bits_range [of key_length] by (simp_all add: zero_bits_def em_len_def)
  have m: "length (slice signature 0 masked_db_length) = nat (em_len - hash_length - 1)"
    using long n1 by (simp add: masked_db_length_def length_slice_0)
  have "\<exists>mask.
           mgf1 hashlib hash_algorithm
             (slice signature masked_db_length (masked_db_length + hash_length))
             (em_len - hash_length - 1) = Inr mask
         \<and> length mask = nat (em_len - hash_length - 1)
         \<and> recover_db hashlib hash_algorithm em_len hash_length zero_bits
             (slice signature 0 masked_db_length)
             (slice signature masked_db_length (masked_db_length + hash_length))
           = Inr (xor_bytes (slice signature 0 masked_db_length) (clear_top_bits zero_bits mask))"
    using h len n1 n2 zbr m by (rule recover_db_value)
  then show ?thesis
    by (auto simp: masked_db_length_def)
qed

theorem verify_unmasks_with_cleared_mask_witness:
  "\<exists>mask.
     mgf1 toy_hashlib ''sha1'' (slice example_signature 43 (43 + 20)) 43 = Inr mask
   \<and> recover_db toy_hashlib ''sha1'' 64 20 1
        (slice example_signature 0 43) (slice example_signature 43 (43 + 20))
      = Inr (xor_bytes (slice example_signature 0 43) (clear_top_bits 1 mask))"
  using verify_unmasks_with_cleared_mask [where hashlib = toy_hashlib
      and hash_algorithm = "''sha1''" and hash_length = 20 and key_length = 512
      and salt_length = 20 and signature = example_signature]
    sha1_length toy_hashlib_length [OF sha1_length]
  by (simp add: example_signature_def)

lemma xor_bytes_zeros: "length x = n \<Longrightarrow> xor_bytes (replicate n 0) x = x"
  by (induction x arbitrary: n) (auto simp: xor_bytes_def)

lemma mgf1_blocks_hd:
  assumes "0 < k" "hashlib h (seed @ BE32 0) \<noteq> []"
  shows "hd (mgf1_blocks hashlib h seed k) = hd (hashlib h (seed @ BE32 0))"
  using assms by (simp add: mgf1_blocks_def upt_conv_Cons)

lemma example_signature_parts:
  "slice example_signature 0 43 = replicate 43 0"
  "slice example_signature 43 63 = replicate 20 0"
  "slice_from example_signature (- 1) = [0xBC]"
  by (simp_all add: example_signature_def slice_nonneg slice_from_def)

lemma example_mask_hd:
  assumes "mgf1 toy_hashlib ''sha1'' (replicate 20 0) 43 = Inr msk"
  shows "hd msk = 152"
proof -
  have "mgf1 toy_hashlib ''sha1'' (replicate 20 0) 43 =
          Inr (take (nat 43)
                 (mgf1_blocks toy_hashlib ''sha1'' (replicate 20 0) (nat ((43 + 20 - 1) div 20))))"
    using sha1_length by (rule mgf1_value) simp_all
  with assms have msk: "msk = take 43 (mgf1_blocks toy_hashlib ''sha1'' (replicate 20 0) 3)"
    by simp
  have first: "toy_hashlib ''sha1'' (replicate 20 0 @ BE32 0) = toy_digest 20 (replicate 20 0 @ BE32 0)"
    by (simp add: toy_hashlib_def sha1_length)
  have d: "hd (toy_digest 20 (replicate 20 0 @ BE32 0)) = 152"
    by (simp add: toy_digest_hd BE32_def sum_list_replicate)
  have ne: "toy_hashlib ''sha1'' (replicate 20 0 @ BE32 0) \<noteq> []"
    unfolding first by (simp add: toy_digest_def)
  have "hd (mgf1_blocks toy_hashlib ''sha1'' (replicate 20 0) 3) = 152"
    using mgf1_blocks_hd [of 3 toy_hashlib "''sha1''" "replicate 20 0", OF _ ne] first d by simp
  then show ?thesis
    unfolding msk by (simp add: hd_take)
qed

text \<open>
  Claim C2 as stated, with no other transformation of the mask, fails. The signature of 63
  zero bytes and the trailer \<open>0xBC\<close> passes the trailer and the leading-bit checks for a
  512-bit key; the first byte of the MGF1 mask of its \<open>H'\<close> is 152, with the top bit set, and
  the verifier clears that bit before the XOR, so the first byte of the data block is 24 and
  not 152.
\<close>

theorem verify_unmask_is_not_plain_xor:
  "slice_from example_signature (- 1) = [0xBC]
   \<and> shift_right (unat (hd (slice example_signature 0 43))) (8 - 1) = Inr 0
   \<and> recover_db toy_hashlib ''sha1'' 64 20 1
        (slice example_signature 0 43) (slice example_signature 43 63)
      \<noteq> map_sum id (xor_bytes (slice example_signature 0 43))
           (mgf1 toy_hashlib ''sha1'' (slice example_signature 43 63) 43)"
proof -
  have "\<exists>msk. mgf1 toy_hashlib ''sha1'' (replicate 20 0) (64 - 20 - 1) = Inr msk
           \<and> length msk = nat (64 - 20 - 1)
           \<and> recover_db toy_hashlib ''sha1'' 64 20 1 (replicate 43 0) (replicate 20 0) =
               Inr (xor_bytes (replicate 43 0) (clear_top_bits 1 msk))"
    using sha1_length toy_hashlib_length [OF sha1_length]
    by (rule recover_db_value) simp_all
  then obtain msk where msk: "mgf1 toy_hashlib ''sha1'' (replicate 20 0) 43 = Inr msk"
    and mlen: "length msk = 43"
    and db: "recover_db toy_hashlib ''sha1'' 64 20 1 (replicate 43 0) (replicate 20 0) =
               Inr (xor_bytes (replicate 43 0) (clear_top_bits 1 msk))"
    by auto
  have hd: "hd msk = 152" using msk by (rule example_mask_hd)
  have ne: "msk \<noteq> []" using mlen by auto
  have "hd (clear_top_bits 1 msk) = take_bit (nat (8 - 1)) (hd msk)"
    using ne by (rule clear_top_bits_hd)
  then have "hd (clear_top_bits 1 msk) = 24" by (simp add: hd)
  then have diff: "clear_top_bits 1 msk \<noteq> msk" using hd by auto
  have "xor_bytes (replicate 43 0) (clear_top_bits 1 msk) = clear_top_bits 1 msk"
    using mlen by (intro xor_bytes_zeros) (simp add: clear_top_bits_length)
  moreover have "xor_bytes (replicate 43 0) msk = msk"
    using mlen by (rule xor_bytes_zeros)
  ultimately have "recover_db toy_hashlib ''sha1'' 64 20 1 (replicate 43 0) (replicate 20 0)
      \<noteq> map_sum id (xor_bytes (replicate 43 0)) (mgf1 toy_hashlib ''sha1'' (replicate 20 0) 43)"
    using diff by (simp add: db msk)
  moreover have "shift_right (unat (hd (replicate 43 (0::byte)))) (8 - 1) = Inr 0"
    by (simp add: shift_right_def)
  ultimately show ?thesis
    by (simp add: example_signature_parts)
qed

end
